theory Spec2Isabelle
  imports Complex_Main
begin

section \<open>Pilgrim Map Kit: track profile and cursor synchronisation\<close>

text \<open>
  A shallow embedding of \<^verbatim>\<open>parseGPXToSeries\<close>, \<^verbatim>\<open>haversineMiles\<close> and
  \<^verbatim>\<open>kmToIndex\<close> of the Pilgrim Map Kit script.

  Numbers. A JavaScript number is modelled by \<open>jsnum\<close>: a finite value, one of the two
  infinities, or NaN; the sign of zero is not modelled. A finite value is the real number
  that the double denotes. The arithmetic is that of IEEE 754 binary64: \<^verbatim>\<open>+\<close>, \<^verbatim>\<open>-\<close>,
  \<^verbatim>\<open>*\<close> and \<^verbatim>\<open>/\<close> round the exact result to the nearest double, ties to even, with
  subnormals and overflow to an infinity (\<open>round64\<close>, \<open>fl64\<close>, \<open>add64\<close>, \<open>sub64\<close>,
  \<open>mul64\<close>, \<open>div64\<close>); NaN is contagious, every comparison with NaN is false and
  \<open>Infinity - Infinity\<close> is NaN.

  Library functions. ECMAScript fixes the results of \<^verbatim>\<open>Math.sin\<close>, \<^verbatim>\<open>Math.cos\<close>,
  \<^verbatim>\<open>Math.asin\<close>, \<^verbatim>\<open>Math.sqrt\<close> and \<^verbatim>\<open>**\<close> at NaN, at the infinities and outside the
  domain of the function, and leaves their precision elsewhere to the implementation. The
  model keeps the fixed results and, for a finite argument inside the domain, takes the
  double nearest to the exact value.

  Input. The DOM is outside the script, so a GPX document is given as the list of its
  \<^verbatim>\<open><trk>\<close> elements, each the list of its \<^verbatim>\<open><trkpt>\<close> descendants in document
  order. A \<^verbatim>\<open><trkpt>\<close> carries what \<^verbatim>\<open>parseFloat\<close> returns for its \<^verbatim>\<open>lat\<close> and
  \<^verbatim>\<open>lon\<close> attributes (NaN for absent or malformed text) and, when it has an
  \<^verbatim>\<open><ele>\<close> child, what \<^verbatim>\<open>parseFloat\<close> returns for the text of the first one.
\<close>

subsection \<open>JavaScript numbers\<close>

datatype jsnum = Fin real | PInf | NInf | NaN

fun isFinite :: "jsnum \<Rightarrow> bool" where
  "isFinite (Fin v) = True"
| "isFinite PInf = False"
| "isFinite NInf = False"
| "isFinite NaN = False"

fun js_neg :: "jsnum \<Rightarrow> jsnum" where
  "js_neg (Fin v) = Fin (- v)"
| "js_neg PInf = NInf"
| "js_neg NInf = PInf"
| "js_neg NaN = NaN"

text \<open>The sign of a product or quotient with an infinite operand.\<close>

definition signed_inf :: "bool \<Rightarrow> jsnum" where
  "signed_inf positive = (if positive then PInf else NInf)"

text \<open>\<^verbatim>\<open>a < b\<close> and \<^verbatim>\<open>a <= b\<close>: false as soon as one side is NaN.\<close>

fun js_lt :: "jsnum \<Rightarrow> jsnum \<Rightarrow> bool" where
  "js_lt (Fin v) (Fin w) = (v < w)"
| "js_lt NaN b = False"
| "js_lt a NaN = False"
| "js_lt a NInf = False"
| "js_lt PInf b = False"
| "js_lt NInf b = True"
| "js_lt a PInf = True"

fun js_le :: "jsnum \<Rightarrow> jsnum \<Rightarrow> bool" where
  "js_le (Fin v) (Fin w) = (v \<le> w)"
| "js_le NaN b = False"
| "js_le a NaN = False"
| "js_le NInf b = True"
| "js_le a PInf = True"
| "js_le a NInf = False"
| "js_le PInf b = False"

fun Math_abs :: "jsnum \<Rightarrow> jsnum" where
  "Math_abs (Fin v) = Fin \<bar>v\<bar>"
| "Math_abs PInf = PInf"
| "Math_abs NInf = PInf"
| "Math_abs NaN = NaN"

subsection \<open>Rounding to a double\<close>

text \<open>Powers of two with an integer exponent.\<close>

definition p2 :: "int \<Rightarrow> real" where
  "p2 k = 2 powr of_int k"

text \<open>
  The exponent of the grid of doubles around \<open>x\<close>: 52 below the binary exponent of
  \<open>x\<close>, and never below \<open>-1074\<close>, the grid of the subnormal numbers (also the grid
  at 0).
\<close>

definition ulp_exp :: "real \<Rightarrow> int" where
  "ulp_exp x = (if x = 0 then - 1074 else max (\<lfloor>log 2 \<bar>x\<bar>\<rfloor> - 52) (- 1074))"

definition ulp :: "real \<Rightarrow> real" where
  "ulp x = p2 (ulp_exp x)"

text \<open>Rounding to the nearest integer, a tie going to the even one.\<close>

definition round_even :: "real \<Rightarrow> int" where
  "round_even t =
     (if t - of_int \<lfloor>t\<rfloor> < 1 / 2 then \<lfloor>t\<rfloor>
      else if 1 / 2 < t - of_int \<lfloor>t\<rfloor> then \<lfloor>t\<rfloor> + 1
      else if even \<lfloor>t\<rfloor> then \<lfloor>t\<rfloor> else \<lfloor>t\<rfloor> + 1)"

text \<open>
  Rounding to the nearest number with a 53-bit significand, the exponent unbounded above.
\<close>

definition round64 :: "real \<Rightarrow> real" where
  "round64 x = of_int (round_even (x / ulp x)) * ulp x"

text \<open>The largest finite double, \<open>(2^53 - 1) * 2^971\<close>.\<close>

definition max_double :: real where
  "max_double = (2 ^ 53 - 1) * 2 ^ 971"

text \<open>
  The double an exact result is delivered as: a rounded result beyond the largest double
  is an infinity.
\<close>

definition fl64 :: "real \<Rightarrow> jsnum" where
  "fl64 x =
     (if max_double < round64 x then PInf
      else if round64 x < - max_double then NInf
      else Fin (round64 x))"

text \<open>The finite doubles: the numbers that rounding leaves alone, up to the largest.\<close>

definition is_double :: "real \<Rightarrow> bool" where
  "is_double x \<longleftrightarrow> round64 x = x \<and> \<bar>x\<bar> \<le> max_double"

subsection \<open>Arithmetic on doubles\<close>

text \<open>\<^verbatim>\<open>a + b\<close> and \<^verbatim>\<open>a - b\<close>.\<close>

fun add64 :: "jsnum \<Rightarrow> jsnum \<Rightarrow> jsnum" where
  "add64 (Fin v) (Fin w) = fl64 (v + w)"
| "add64 NaN b = NaN"
| "add64 a NaN = NaN"
| "add64 PInf NInf = NaN"
| "add64 NInf PInf = NaN"
| "add64 PInf b = PInf"
| "add64 a PInf = PInf"
| "add64 NInf b = NInf"
| "add64 a NInf = NInf"

definition sub64 :: "jsnum \<Rightarrow> jsnum \<Rightarrow> jsnum" where
  "sub64 a b = add64 a (js_neg b)"

text \<open>
  \<^verbatim>\<open>a * b\<close> and \<^verbatim>\<open>a / b\<close>. The script divides by the non-zero constants 180, 2 and
  3.28084 only; a zero divisor is read as \<open>+0\<close>.
\<close>

fun mul64 :: "jsnum \<Rightarrow> jsnum \<Rightarrow> jsnum" where
  "mul64 (Fin v) (Fin w) = fl64 (v * w)"
| "mul64 NaN b = NaN"
| "mul64 a NaN = NaN"
| "mul64 (Fin v) PInf = (if v = 0 then NaN else signed_inf (0 < v))"
| "mul64 (Fin v) NInf = (if v = 0 then NaN else signed_inf (v < 0))"
| "mul64 PInf (Fin w) = (if w = 0 then NaN else signed_inf (0 < w))"
| "mul64 NInf (Fin w) = (if w = 0 then NaN else signed_inf (w < 0))"
| "mul64 PInf PInf = PInf"
| "mul64 NInf NInf = PInf"
| "mul64 PInf NInf = NInf"
| "mul64 NInf PInf = NInf"

fun div64 :: "jsnum \<Rightarrow> jsnum \<Rightarrow> jsnum" where
  "div64 (Fin v) (Fin w) =
     (if w = 0 then (if v = 0 then NaN else signed_inf (0 < v)) else fl64 (v / w))"
| "div64 NaN b = NaN"
| "div64 a NaN = NaN"
| "div64 (Fin v) PInf = Fin 0"
| "div64 (Fin v) NInf = Fin 0"
| "div64 PInf (Fin w) = signed_inf (0 \<le> w)"
| "div64 NInf (Fin w) = signed_inf (w < 0)"
| "div64 PInf PInf = NaN"
| "div64 PInf NInf = NaN"
| "div64 NInf PInf = NaN"
| "div64 NInf NInf = NaN"

text \<open>\<^verbatim>\<open>v ** 2\<close>.\<close>

definition js_sq :: "jsnum \<Rightarrow> jsnum" where
  "js_sq a = mul64 a a"

fun Math_sqrt :: "jsnum \<Rightarrow> jsnum" where
  "Math_sqrt (Fin v) = (if v < 0 then NaN else fl64 (sqrt v))"
| "Math_sqrt PInf = PInf"
| "Math_sqrt NInf = NaN"
| "Math_sqrt NaN = NaN"

fun Math_sin :: "jsnum \<Rightarrow> jsnum" where
  "Math_sin (Fin v) = fl64 (sin v)"
| "Math_sin PInf = NaN"
| "Math_sin NInf = NaN"
| "Math_sin NaN = NaN"

fun Math_cos :: "jsnum \<Rightarrow> jsnum" where
  "Math_cos (Fin v) = fl64 (cos v)"
| "Math_cos PInf = NaN"
| "Math_cos NInf = NaN"
| "Math_cos NaN = NaN"

fun Math_asin :: "jsnum \<Rightarrow> jsnum" where
  "Math_asin (Fin v) = (if - 1 \<le> v \<and> v \<le> 1 then fl64 (arcsin v) else NaN)"
| "Math_asin PInf = NaN"
| "Math_asin NInf = NaN"
| "Math_asin NaN = NaN"

text \<open>\<^verbatim>\<open>Math.PI\<close>: the double nearest to \<open>pi\<close>, \<open>884279719003555 / 2^48\<close>.\<close>

definition pi64 :: real where
  "pi64 = 884279719003555 / 2 ^ 48"

definition Math_PI :: jsnum where
  "Math_PI = Fin pi64"

subsection \<open>Great-circle distance\<close>

record point =
  lat :: jsnum
  lon :: jsnum
  ele :: jsnum

definition toRad :: "jsnum \<Rightarrow> jsnum" where
  "toRad deg = div64 (mul64 deg Math_PI) (Fin 180)"

definition R_km :: jsnum where
  "R_km = Fin 6371"

text \<open>The literal \<^verbatim>\<open>0.621371\<close>: the double nearest to it, \<open>5596812408117665 / 2^53\<close>.\<close>

definition mi64 :: real where
  "mi64 = 5596812408117665 / 2 ^ 53"

definition mi_per_km :: jsnum where
  "mi_per_km = Fin mi64"

definition hav_A :: "point \<Rightarrow> point \<Rightarrow> jsnum" where
  "hav_A a b =
     (let dLat = toRad (sub64 (lat b) (lat a));
          dLon = toRad (sub64 (lon b) (lon a))
      in add64 (js_sq (Math_sin (div64 dLat (Fin 2))))
           (mul64 (mul64 (Math_cos (toRad (lat a))) (Math_cos (toRad (lat b))))
              (js_sq (Math_sin (div64 dLon (Fin 2))))))"

definition haversineMiles :: "point \<Rightarrow> point \<Rightarrow> jsnum" where
  "haversineMiles a b =
     (let d_km = mul64 (mul64 (Fin 2) R_km) (Math_asin (Math_sqrt (hav_A a b)))
      in mul64 d_km mi_per_km)"

subsection \<open>Parsing a GPX document into a series\<close>

record trkpt =
  attr_lat :: jsnum
  attr_lon :: jsnum
  ele_elem :: "jsnum option"

text \<open>
  \<^verbatim>\<open>parseFloat(pt.getElementsByTagName('ele')[0]?.textContent ?? '0')\<close>: a point
  without an \<^verbatim>\<open><ele>\<close> child reads the text \<^verbatim>\<open>'0'\<close>.
\<close>

definition parse_trkpt :: "trkpt \<Rightarrow> point" where
  "parse_trkpt pt =
     \<lparr>lat = attr_lat pt, lon = attr_lon pt,
      ele = (case ele_elem pt of None \<Rightarrow> Fin 0 | Some v \<Rightarrow> v)\<rparr>"

text \<open>
  The body of \<^verbatim>\<open>trks.forEach\<close>: the points of the track are appended to \<open>pts\<close> and the
  index of the last point so far is appended to \<open>stageEndIdx\<close>.
\<close>

definition collect_trk :: "point list \<times> int list \<Rightarrow> trkpt list \<Rightarrow> point list \<times> int list" where
  "collect_trk st trk =
     (let pts' = fst st @ map parse_trkpt trk
      in (pts', snd st @ [int (length pts') - 1]))"

definition collect_trks :: "trkpt list list \<Rightarrow> point list \<times> int list" where
  "collect_trks trks = foldl collect_trk ([], []) trks"

text \<open>
  Reading an array of numbers at an index where the result is used as a number:
  out of range the read gives \<^verbatim>\<open>undefined\<close>, which arithmetic and comparison turn
  into NaN.
\<close>

definition num_at :: "jsnum list \<Rightarrow> int \<Rightarrow> jsnum" where
  "num_at xs i = (if 0 \<le> i \<and> i < int (length xs) then xs ! nat i else NaN)"

text \<open>The literal \<^verbatim>\<open>3.28084\<close>: the double nearest to it, \<open>7387794900731109 / 2^51\<close>.\<close>

definition c64 :: real where
  "c64 = 7387794900731109 / 2 ^ 51"

definition ft_per_m :: jsnum where
  "ft_per_m = Fin c64"

text \<open>\<^verbatim>\<open>(pts[0]?.ele ?? 0) * 3.28084\<close>.\<close>

definition elev0 :: "point list \<Rightarrow> jsnum" where
  "elev0 ps = mul64 (case ps of [] \<Rightarrow> Fin 0 | p # _ \<Rightarrow> ele p) ft_per_m"

text \<open>One turn of the loop \<^verbatim>\<open>for (let i = 1; i < pts.length; i++)\<close>.\<close>

definition series_step :: "point list \<Rightarrow> nat \<Rightarrow> jsnum list \<times> jsnum list \<Rightarrow> jsnum list \<times> jsnum list" where
  "series_step ps i st =
     (let distMi = fst st; elevFt = snd st;
          d = add64 (num_at distMi (int i - 1)) (haversineMiles (ps ! (i - 1)) (ps ! i));
          e = (if isFinite (ele (ps ! i)) then ele (ps ! i)
               else div64 (num_at elevFt (int i - 1)) ft_per_m)
      in (distMi @ [d], elevFt @ [mul64 e ft_per_m]))"

definition series_loop :: "point list \<Rightarrow> nat \<Rightarrow> jsnum list \<times> jsnum list" where
  "series_loop ps n = fold (series_step ps) [1..<n] ([Fin 0], [elev0 ps])"

text \<open>
  A stage marker. The coordinates are array reads that are stored as they are, so an
  out-of-range read is kept as \<open>None\<close> (\<^verbatim>\<open>undefined\<close>).
\<close>

record marker =
  x_mi :: "jsnum option"
  y_ft :: "jsnum option"
  isFinal :: bool

definition elem_at :: "'a list \<Rightarrow> int \<Rightarrow> 'a option" where
  "elem_at xs i = (if 0 \<le> i \<and> i < int (length xs) then Some (xs ! nat i) else None)"

definition stage_indices :: "int list \<Rightarrow> int list" where
  "stage_indices stageEndIdx = filter (\<lambda>idx. 0 < idx) stageEndIdx"

definition mk_marker :: "jsnum list \<Rightarrow> jsnum list \<Rightarrow> int list \<Rightarrow> int \<times> nat \<Rightarrow> marker" where
  "mk_marker distMi elevFt stageEndIdx p =
     \<lparr>x_mi = elem_at distMi (fst p), y_ft = elem_at elevFt (fst p),
      isFinal = (int (snd p) = int (length stageEndIdx) - 1)\<rparr>"

text \<open>\<^verbatim>\<open>stageEndIdx.filter(idx => idx > 0).map((idx, s) => ...)\<close>: \<open>s\<close> counts the kept entries.\<close>

definition stage_markers :: "jsnum list \<Rightarrow> jsnum list \<Rightarrow> int list \<Rightarrow> marker list" where
  "stage_markers distMi elevFt stageEndIdx =
     map (mk_marker distMi elevFt stageEndIdx)
       (zip (stage_indices stageEndIdx) [0..<length (stage_indices stageEndIdx)])"

record series =
  pts :: "point list"
  distMi :: "jsnum list"
  elevFt :: "jsnum list"
  totalMi :: jsnum
  stageScatter :: "marker list"

datatype error = NoTrk

definition parseGPXToSeries :: "trkpt list list \<Rightarrow> error + series" where
  "parseGPXToSeries trks =
     (if trks = [] then Inl NoTrk
      else
        let ps = fst (collect_trks trks);
            stageEndIdx = snd (collect_trks trks);
            dm = fst (series_loop ps (length ps));
            ef = snd (series_loop ps (length ps))
        in Inr \<lparr>pts = ps, distMi = dm, elevFt = ef,
                totalMi = num_at dm (int (length dm) - 1),
                stageScatter = stage_markers dm ef stageEndIdx\<rparr>)"

subsection \<open>Nearest-index locator\<close>

text \<open>
  \<^verbatim>\<open>(lo + hi) >> 1\<close>: the sum is taken to a signed 32-bit integer, then shifted
  arithmetically.
\<close>

definition toInt32 :: "int \<Rightarrow> int" where
  "toInt32 n = (n + 2 ^ 31) mod 2 ^ 32 - 2 ^ 31"

definition sar1 :: "int \<Rightarrow> int" where
  "sar1 n = toInt32 n div 2"

text \<open>The \<^verbatim>\<open>while (lo < hi)\<close> loop; \<open>None\<close> stands for a loop that does not end.\<close>

partial_function (option) lower_bound_loop :: "jsnum list \<Rightarrow> jsnum \<Rightarrow> int \<Rightarrow> int \<Rightarrow> int option" where
  "lower_bound_loop d mi lo hi =
     (if lo < hi
      then (if js_lt (num_at d (sar1 (lo + hi))) mi
            then lower_bound_loop d mi (sar1 (lo + hi) + 1) hi
            else lower_bound_loop d mi lo (sar1 (lo + hi)))
      else Some lo)"

definition pick_nearest :: "jsnum list \<Rightarrow> jsnum \<Rightarrow> int \<Rightarrow> int" where
  "pick_nearest d mi lo =
     (let i2 = lo; i1 = max 0 (lo - 1)
      in if js_le (Math_abs (sub64 (num_at d i1) mi)) (Math_abs (sub64 (num_at d i2) mi))
         then i1 else i2)"

definition kmToIndex :: "jsnum list \<Rightarrow> jsnum \<Rightarrow> int option" where
  "kmToIndex d mi =
     (case lower_bound_loop d mi 0 (int (length d) - 1) of
        None \<Rightarrow> None
      | Some lo \<Rightarrow> Some (pick_nearest d mi lo))"

subsection \<open>Partial sums of the sine and cosine series\<close>

text \<open>
  The sum of \<open>n\<close> terms of an alternating series whose term \<open>t\<close> is followed by
  \<open>- t * q / ((j + 1) * (j + 2))\<close>: the sine series of \<open>x\<close> for \<open>q = x * x\<close>, \<open>j = 1\<close> and
  \<open>t = x\<close>, the cosine series for \<open>j = 0\<close> and \<open>t = 1\<close>.
\<close>

fun tsum :: "nat \<Rightarrow> real \<Rightarrow> real \<Rightarrow> real \<Rightarrow> real" where
  "tsum 0 q j t = 0"
| "tsum (Suc n) q j t = t + tsum n q (j + 2) (- (t * q) / ((j + 1) * (j + 2)))"

text \<open>
  Bounds of the sum with first term 1, computed in the nested form
  \<open>1 - q / ((j + 1) * (j + 2)) * (1 - \<dots>)\<close> and cut after 80 binary digits at every step,
  downwards for the lower and upwards for the upper bound.
\<close>

definition down :: "real \<Rightarrow> real" where
  "down v = of_int \<lfloor>v * 2 ^ 80\<rfloor> / 2 ^ 80"

definition up :: "real \<Rightarrow> real" where
  "up v = of_int \<lceil>v * 2 ^ 80\<rceil> / 2 ^ 80"

fun hlo :: "nat \<Rightarrow> real \<Rightarrow> real \<Rightarrow> real" and hhi :: "nat \<Rightarrow> real \<Rightarrow> real \<Rightarrow> real" where
  "hlo 0 q j = 0"
| "hlo (Suc n) q j = down (1 - q / ((j + 1) * (j + 2)) * hhi n q (j + 2))"
| "hhi 0 q j = 0"
| "hhi (Suc n) q j = up (1 - q / ((j + 1) * (j + 2)) * hlo n q (j + 2))"

subsection \<open>Sample track points\<close>

text \<open>
  Points at latitude 0 and longitude 0, used to run the builder on concrete documents:
  a \<^verbatim>\<open><trkpt>\<close> element with a given elevation reading and the point it parses to.
\<close>

definition origin_trkpt :: "jsnum option \<Rightarrow> trkpt" where
  "origin_trkpt e = \<lparr>attr_lat = Fin 0, attr_lon = Fin 0, ele_elem = e\<rparr>"

definition origin_point :: "jsnum \<Rightarrow> point" where
  "origin_point e = \<lparr>lat = Fin 0, lon = Fin 0, ele = e\<rparr>"

text \<open>
  Two points that are nearly antipodal: \<open>south_lat\<close> and \<open>north_lat\<close> are the doubles that
  \<^verbatim>\<open>parseFloat\<close> returns for the texts \<^verbatim>\<open>-64.56999996\<close> and \<^verbatim>\<open>64.57\<close>, and the
  longitudes are 0 and 180.
\<close>

definition south_lat :: real where
  "south_lat = - (4543709808737015 / 2 ^ 46)"

definition north_lat :: real where
  "north_lat = 1135927452887941 / 2 ^ 44"

definition south_trkpt :: trkpt where
  "south_trkpt = \<lparr>attr_lat = Fin south_lat, attr_lon = Fin 0, ele_elem = None\<rparr>"

definition north_trkpt :: trkpt where
  "north_trkpt = \<lparr>attr_lat = Fin north_lat, attr_lon = Fin 180, ele_elem = None\<rparr>"


section \<open>Rounding to a double\<close>

subsection \<open>Powers of two and rounding to an integer\<close>

lemma p2_pos [simp]: "0 < p2 k"
  by (simp add: p2_def)

lemma p2_nonneg [simp]: "0 \<le> p2 k"
  by (simp add: p2_def)

lemma p2_neq_0 [simp]: "p2 k \<noteq> 0"
  by (simp add: p2_def)

lemma p2_not_le_0 [simp]: "\<not> p2 k \<le> 0"
  by (simp add: p2_def not_le)

lemma p2_eqI: "a = b \<Longrightarrow> p2 a = p2 b"
  by simp

lemma p2_add: "p2 (a + b) = p2 a * p2 b"
  by (simp add: p2_def powr_add)

lemma p2_0 [simp]: "p2 0 = 1"
  by (simp add: p2_def)

lemma p2_1 [simp]: "p2 1 = 2"
  by (simp add: p2_def)

lemma p2_Suc: "p2 (k + 1) = 2 * p2 k"
  by (simp add: p2_add)

lemma p2_pred: "p2 (k - 1) = p2 k / 2"
  using p2_Suc [of "k - 1"] by simp

lemma p2_minus_1: "p2 (- 1) = 1 / 2"
  using p2_pred [of 0] by simp

lemma p2_mono: "a \<le> b \<Longrightarrow> p2 a \<le> p2 b"
  by (simp add: p2_def)

lemma p2_less_iff [simp]: "p2 a < p2 b \<longleftrightarrow> a < b"
  by (simp add: p2_def)

lemma p2_le_iff [simp]: "p2 a \<le> p2 b \<longleftrightarrow> a \<le> b"
  by (simp add: p2_def)

lemma p2_nat: "p2 (int n) = 2 ^ n"
  by (simp add: p2_def powr_realpow)

lemma p2_numeral: "p2 (numeral n) = 2 ^ numeral n"
  using p2_nat [of "numeral n"] by simp

lemma p2_diff: "p2 (a - b) = p2 a / p2 b"
  by (simp add: p2_def powr_diff)

lemma p2_neg_numeral: "p2 (- numeral n) = 1 / 2 ^ numeral n"
  using p2_diff [of 0 "numeral n"] by (simp add: p2_numeral)

text \<open>A multiple of a finer power of two is a multiple of a coarser one only upward:
  a multiple of \<open>p2 a\<close> is a multiple of \<open>p2 b\<close> when \<open>b \<le> a\<close>.\<close>

lemma grid_coarser:
  assumes "b \<le> a"
  shows "\<exists>m::int. of_int n * p2 a = of_int m * p2 b"
proof -
  define d where "d = nat (a - b)"
  have "a = int d + b"
    using assms by (simp add: d_def)
  then have "p2 a = 2 ^ d * p2 b"
    by (simp only: p2_add p2_nat)
  then have "of_int n * p2 a = of_int (n * 2 ^ d) * p2 b"
    by simp
  then show ?thesis by blast
qed

lemma floor_log2_eq:
  assumes "0 < x" "p2 k \<le> x" "x < p2 (k + 1)"
  shows "\<lfloor>log 2 x\<rfloor> = k"
  using assms by (simp add: floor_log_eq_powr_iff p2_def)

lemma floor_log2_bounds:
  assumes "0 < x"
  shows "p2 \<lfloor>log 2 x\<rfloor> \<le> x" "x < p2 (\<lfloor>log 2 x\<rfloor> + 1)"
  using floor_log_eq_powr_iff [of x 2 "\<lfloor>log 2 x\<rfloor>"] assms
  by (simp_all add: p2_def)

lemma round_even_error: "\<bar>of_int (round_even t) - t\<bar> \<le> 1 / 2"
  unfolding round_even_def by (auto simp add: abs_le_iff)

lemma round_even_unique:
  assumes "\<bar>of_int n - t\<bar> < 1 / 2"
  shows "round_even t = n"
proof -
  have "\<bar>of_int (round_even t) - t\<bar> \<le> 1 / 2" by (rule round_even_error)
  with assms have "\<bar>(of_int (round_even t) :: real) - of_int n\<bar> < 1" by linarith
  then have "\<bar>round_even t - n\<bar> < 1"
    by (metis of_int_diff of_int_abs of_int_less_1_iff)
  then show ?thesis by simp
qed

lemma round_even_minus: "round_even (- t) = - round_even t"
proof (cases "t = of_int \<lfloor>t\<rfloor>")
  case True
  then obtain n :: int where "t = of_int n" ..
  then show ?thesis
    by (simp add: round_even_def)
next
  case False
  then have fl: "\<lfloor>- t\<rfloor> = - \<lfloor>t\<rfloor> - 1"
    by (simp add: floor_minus ceiling_altdef)
  show ?thesis
    unfolding round_even_def fl
    by (auto simp add: algebra_simps)
qed

subsection \<open>The grid of doubles\<close>

lemma ulp_pos [simp]: "0 < ulp x"
  by (simp add: ulp_def)

lemma ulp_nonneg [simp]: "0 \<le> ulp x"
  by (simp add: ulp_def)

lemma abs_ulp [simp]: "\<bar>ulp x\<bar> = ulp x"
  by (simp add: ulp_def)

lemma ulp_neq_0 [simp]: "ulp x \<noteq> 0"
  using ulp_pos [of x] by linarith

lemma ulp_exp_ge: "- 1074 \<le> ulp_exp x"
  by (simp add: ulp_exp_def)

lemma ulp_exp_minus [simp]: "ulp_exp (- x) = ulp_exp x"
  by (simp add: ulp_exp_def)

lemma ulp_minus [simp]: "ulp (- x) = ulp x"
  by (simp add: ulp_def)

lemma ulp_exp_abs [simp]: "ulp_exp \<bar>x\<bar> = ulp_exp x"
  by (simp add: ulp_exp_def)

lemma ulp_exp_eq:
  assumes "p2 k \<le> \<bar>x\<bar>" "\<bar>x\<bar> < p2 (k + 1)"
  shows "ulp_exp x = max (k - 52) (- 1074)"
proof -
  have pos: "0 < \<bar>x\<bar>"
    using assms(1) p2_pos [of k] by linarith
  then have "\<lfloor>log 2 \<bar>x\<bar>\<rfloor> = k"
    using assms by (rule floor_log2_eq)
  moreover have "x \<noteq> 0" using pos by simp
  ultimately show ?thesis
    by (simp add: ulp_exp_def)
qed

lemma ulp_exp_mono:
  assumes "x \<noteq> 0" "\<bar>x\<bar> \<le> \<bar>y\<bar>"
  shows "ulp_exp x \<le> ulp_exp y"
proof -
  have y: "y \<noteq> 0" using assms by auto
  have "log 2 \<bar>x\<bar> \<le> log 2 \<bar>y\<bar>"
    using assms by simp
  then have "\<lfloor>log 2 \<bar>x\<bar>\<rfloor> \<le> \<lfloor>log 2 \<bar>y\<bar>\<rfloor>"
    by (rule floor_mono)
  then show ?thesis
    using assms(1) y by (simp add: ulp_exp_def)
qed

text \<open>Above the clamp the grid exponent tells the binade.\<close>

lemma ulp_exp_normal:
  assumes "x \<noteq> 0" "- 1074 < ulp_exp x"
  shows "p2 (ulp_exp x + 52) \<le> \<bar>x\<bar>" "\<bar>x\<bar> < p2 (ulp_exp x + 53)"
proof -
  have "ulp_exp x = \<lfloor>log 2 \<bar>x\<bar>\<rfloor> - 52"
    using assms by (simp add: ulp_exp_def max_def split: if_splits)
  then have e: "\<lfloor>log 2 \<bar>x\<bar>\<rfloor> = ulp_exp x + 52"
    and e': "\<lfloor>log 2 \<bar>x\<bar>\<rfloor> + 1 = ulp_exp x + 53"
    by simp_all
  have pos: "0 < \<bar>x\<bar>" using assms(1) by simp
  show "p2 (ulp_exp x + 52) \<le> \<bar>x\<bar>"
    using floor_log2_bounds(1) [OF pos] by (simp only: e)
  show "\<bar>x\<bar> < p2 (ulp_exp x + 53)"
    using floor_log2_bounds(2) [OF pos] by (simp only: e')
qed

lemma ulp_exp_upper:
  assumes "x \<noteq> 0"
  shows "\<bar>x\<bar> < p2 (ulp_exp x + 53)"
proof -
  have pos: "0 < \<bar>x\<bar>" using assms by simp
  have "\<lfloor>log 2 \<bar>x\<bar>\<rfloor> + 1 \<le> ulp_exp x + 53"
    using assms by (simp add: ulp_exp_def)
  then have "p2 (\<lfloor>log 2 \<bar>x\<bar>\<rfloor> + 1) \<le> p2 (ulp_exp x + 53)"
    by (rule p2_mono)
  with floor_log2_bounds(2) [OF pos] show ?thesis by linarith
qed

lemma round64_grid: "round64 x = of_int (round_even (x / ulp x)) * ulp x"
  by (simp add: round64_def)

lemma round64_error: "\<bar>round64 x - x\<bar> \<le> ulp x / 2"
proof -
  have "\<bar>of_int (round_even (x / ulp x)) - x / ulp x\<bar> \<le> 1 / 2"
    by (rule round_even_error)
  then have "\<bar>of_int (round_even (x / ulp x)) - x / ulp x\<bar> * ulp x \<le> 1 / 2 * ulp x"
    by (rule mult_right_mono) simp
  moreover have "\<bar>of_int (round_even (x / ulp x)) - x / ulp x\<bar> * ulp x = \<bar>round64 x - x\<bar>"
  proof -
    have "\<bar>of_int (round_even (x / ulp x)) - x / ulp x\<bar> * ulp x =
        \<bar>(of_int (round_even (x / ulp x)) - x / ulp x) * ulp x\<bar>"
      by (simp add: abs_mult)
    also have "(of_int (round_even (x / ulp x)) - x / ulp x) * ulp x = round64 x - x"
      by (simp add: round64_def left_diff_distrib)
    finally show ?thesis .
  qed
  ultimately show ?thesis by simp
qed

lemma round64_unique:
  assumes "\<bar>of_int n * ulp x - x\<bar> < ulp x / 2"
  shows "round64 x = of_int n * ulp x"
proof -
  have "\<bar>of_int n - x / ulp x\<bar> * ulp x = \<bar>(of_int n - x / ulp x) * ulp x\<bar>"
    by (simp add: abs_mult)
  also have "(of_int n - x / ulp x) * ulp x = of_int n * ulp x - x"
    by (simp add: left_diff_distrib)
  finally have "\<bar>of_int n - x / ulp x\<bar> * ulp x < 1 / 2 * ulp x"
    using assms by simp
  then have "\<bar>of_int n - x / ulp x\<bar> < 1 / 2"
    by (simp only: mult_less_cancel_right_pos [OF ulp_pos])
  then have "round_even (x / ulp x) = n"
    by (rule round_even_unique)
  then show ?thesis
    by (simp add: round64_def)
qed

text \<open>A multiple of a power of two that is not finer than the grid at \<open>x\<close>, and nearer to
  \<open>x\<close> than half a grid step, is the rounding of \<open>x\<close>.\<close>

lemma round64_nearest:
  assumes "d = of_int n * p2 e" "ulp_exp x \<le> e" "\<bar>d - x\<bar> < ulp x / 2"
  shows "round64 x = d"
proof -
  obtain m :: int where m: "of_int n * p2 e = of_int m * p2 (ulp_exp x)"
    using grid_coarser [OF assms(2)] by blast
  then have d: "d = of_int m * ulp x"
    using assms(1) by (simp add: ulp_def)
  with assms(3) have "round64 x = of_int m * ulp x"
    by (intro round64_unique) simp
  with d show ?thesis by simp
qed

lemma round64_minus: "round64 (- x) = - round64 x"
  by (simp add: round64_def round_even_minus)

lemma round64_0 [simp]: "round64 0 = 0"
  by (simp add: round64_def round_even_def)

text \<open>Numbers that rounding leaves alone: the representable ones.\<close>

lemma representable_multiple:
  assumes "round64 r = r"
  shows "\<exists>n::int. r = of_int n * ulp r"
  using assms round64_grid [of r] by metis

lemma round64_representable:
  assumes "x = of_int n * p2 e" "\<bar>n\<bar> < 2 ^ 53" "- 1074 \<le> e"
  shows "round64 x = x"
proof (cases "x = 0")
  case True
  then show ?thesis by simp
next
  case False
  have "\<bar>x\<bar> = of_int \<bar>n\<bar> * p2 e"
    using assms(1) by (simp add: abs_mult)
  also have "\<dots> < 2 ^ 53 * p2 e"
  proof (rule mult_strict_right_mono)
    have "(of_int \<bar>n\<bar> :: real) < of_int (2 ^ 53)"
      using assms(2) by (simp only: of_int_less_iff)
    then show "(of_int \<bar>n\<bar> :: real) < 2 ^ 53" by simp
  qed simp
  also have "\<dots> = p2 (e + 53)"
    by (simp add: p2_add p2_nat [of 53, simplified])
  finally have up: "\<bar>x\<bar> < p2 (e + 53)" .
  have "ulp_exp x \<le> e"
  proof (rule ccontr)
    assume "\<not> ulp_exp x \<le> e"
    then have gt: "e < ulp_exp x" by simp
    with assms(3) have "- 1074 < ulp_exp x" by simp
    from ulp_exp_normal(1) [OF False this] have "p2 (ulp_exp x + 52) \<le> \<bar>x\<bar>" .
    moreover have "p2 (e + 53) \<le> p2 (ulp_exp x + 52)"
      using gt by simp
    ultimately show False using up by linarith
  qed
  then show ?thesis
    using assms(1) by (intro round64_nearest [of x n e]) simp_all
qed

lemma c64_bounds: "2 < c64" "c64 < 4"
  by (simp_all add: c64_def)

lemma c64_pos [simp]: "0 < c64"
  using c64_bounds(1) by linarith

lemma c64_neq_0 [simp]: "c64 \<noteq> 0"
  using c64_pos by linarith

lemma c64_nonneg [simp]: "0 \<le> c64"
  using c64_pos by linarith

lemma abs_c64 [simp]: "\<bar>c64\<bar> = c64"
  by (rule abs_of_pos) (rule c64_pos)

lemma round_even_ge:
  assumes "of_int N \<le> t"
  shows "N \<le> round_even t"
proof -
  have "\<bar>of_int (round_even t) - t\<bar> \<le> 1 / 2" by (rule round_even_error)
  with assms have "(of_int N :: real) < of_int (round_even t) + 1" by linarith
  then have "(of_int N :: real) < of_int (round_even t + 1)" by simp
  then have "N < round_even t + 1" by (simp only: of_int_less_iff)
  then show ?thesis by simp
qed

lemma round_even_le:
  assumes "t \<le> of_int N"
  shows "round_even t \<le> N"
proof -
  have "\<bar>of_int (round_even t) - t\<bar> \<le> 1 / 2" by (rule round_even_error)
  with assms have "(of_int (round_even t) :: real) < of_int N + 1" by linarith
  then have "(of_int (round_even t) :: real) < of_int (N + 1)" by simp
  then have "round_even t < N + 1" by (simp only: of_int_less_iff)
  then show ?thesis by simp
qed

lemma ulp_le_abs:
  assumes "p2 (- 1074) \<le> \<bar>x\<bar>"
  shows "ulp x \<le> \<bar>x\<bar>"
proof (cases "ulp_exp x = - 1074")
  case True
  with assms show ?thesis by (simp add: ulp_def)
next
  case False
  with ulp_exp_ge [of x] have n: "- 1074 < ulp_exp x" by simp
  have "x \<noteq> 0" using assms p2_pos [of "- 1074"] by auto
  from ulp_exp_normal(1) [OF this n] have "p2 (ulp_exp x + 52) \<le> \<bar>x\<bar>" .
  moreover have "p2 (ulp_exp x) \<le> p2 (ulp_exp x + 52)" by simp
  ultimately show ?thesis unfolding ulp_def by linarith
qed

lemma representable_pos_ge:
  assumes "round64 r = r" "0 < r"
  shows "p2 (- 1074) \<le> r"
proof -
  obtain n :: int where n: "r = of_int n * ulp r"
    using representable_multiple [OF assms(1)] by blast
  with assms(2) have "0 < (of_int n :: real)"
    by (metis ulp_pos zero_less_mult_pos2)
  then have "1 \<le> n" by simp
  then have "(1 :: real) \<le> of_int n" by simp
  then have "1 * ulp r \<le> of_int n * ulp r"
    by (rule mult_right_mono) simp
  with n have "ulp r \<le> r" by simp
  moreover have "p2 (- 1074) \<le> ulp r"
    unfolding ulp_def using ulp_exp_ge [of r] by simp
  ultimately show ?thesis by linarith
qed

text \<open>The rounding of a positive number stays within the closure of its binade.\<close>

lemma round64_lower:
  assumes "0 < x" "- 1074 < ulp_exp x"
  shows "p2 (ulp_exp x + 52) \<le> round64 x"
proof -
  have x: "x \<noteq> 0" using assms(1) by simp
  have "p2 (ulp_exp x + 52) \<le> x"
    using ulp_exp_normal(1) [OF x assms(2)] assms(1) by simp
  then have "p2 (ulp_exp x + 52) / ulp x \<le> x / ulp x"
    by (simp add: divide_right_mono)
  moreover have "p2 (ulp_exp x + 52) / ulp x = of_int (2 ^ 52)"
    by (simp add: ulp_def p2_add p2_nat [of 52, simplified])
  ultimately have "2 ^ 52 \<le> round_even (x / ulp x)"
    by (intro round_even_ge) simp
  then have "(of_int (2 ^ 52) :: real) \<le> of_int (round_even (x / ulp x))"
    by (simp only: of_int_le_iff)
  then have "of_int (2 ^ 52) * ulp x \<le> of_int (round_even (x / ulp x)) * ulp x"
    by (rule mult_right_mono) simp
  then show ?thesis
    by (simp add: round64_def ulp_def p2_add p2_nat [of 52, simplified])
qed

lemma round64_upper:
  assumes "0 < x"
  shows "round64 x \<le> p2 (ulp_exp x + 53)"
proof -
  have x: "x \<noteq> 0" using assms(1) by simp
  have "x \<le> p2 (ulp_exp x + 53)"
    using ulp_exp_upper [OF x] assms by simp
  then have "x / ulp x \<le> p2 (ulp_exp x + 53) / ulp x"
    by (simp add: divide_right_mono)
  moreover have "p2 (ulp_exp x + 53) / ulp x = of_int (2 ^ 53)"
    by (simp add: ulp_def p2_add p2_nat [of 53, simplified])
  ultimately have "round_even (x / ulp x) \<le> 2 ^ 53"
    by (intro round_even_le) simp
  then have "(of_int (round_even (x / ulp x)) :: real) \<le> of_int (2 ^ 53)"
    by (simp only: of_int_le_iff)
  then have "of_int (round_even (x / ulp x)) * ulp x \<le> of_int (2 ^ 53) * ulp x"
    by (rule mult_right_mono) simp
  then show ?thesis
    by (simp add: round64_def ulp_def p2_add p2_nat [of 53, simplified])
qed

lemma round64_pos:
  assumes "p2 (- 1074) \<le> x"
  shows "x / 2 \<le> round64 x"
proof -
  have "0 < x" using assms p2_pos [of "- 1074"] by linarith
  then have "ulp x \<le> x" using ulp_le_abs [of x] assms by simp
  with round64_error [of x] show ?thesis by linarith
qed

subsection \<open>Multiplying by 3.28084, dividing and multiplying again\<close>

lemma round_even_54: "round_even (2 ^ 54 / c64) = 5490788489984877"
proof (rule round_even_unique)
  show "\<bar>of_int 5490788489984877 - 2 ^ 54 / c64\<bar> < 1 / 2"
    by (simp add: c64_def abs_less_iff)
qed

lemma c64_times_54:
  "2 ^ 54 - 1 < 5490788489984877 * c64" "5490788489984877 * c64 < 2 ^ 54"
  by (simp_all add: c64_def)

lemma p2_54: "p2 54 = 2 ^ 54"
  using p2_nat [of 54] by simp

lemma p2_53: "p2 53 = 2 ^ 53"
  using p2_nat [of 53] by simp

lemma p2_52: "p2 52 = 2 ^ 52"
  using p2_nat [of 52] by simp

text \<open>The one case that the constant decides: a product that is a power of two.\<close>

lemma special_pow2:
  assumes "ulp_exp (p2 k / c64) \<le> k - 54"
  shows "round64 (round64 (p2 k / c64) * c64) = p2 k"
proof -
  define t where "t = p2 k / c64"
  have tpos: "0 < t" by (simp add: t_def)
  have lo: "p2 (k - 2) \<le> t"
  proof -
    have a: "p2 k / 4 \<le> p2 k / c64"
      using c64_bounds by (intro divide_left_mono) simp_all
    have b: "p2 (k - 2) = p2 k / 4"
      using p2_add [of "k - 2" 2] p2_nat [of 2] by simp
    show ?thesis unfolding t_def b by (rule a)
  qed
  have hi: "t < p2 (k - 1)"
  proof -
    have "p2 k / c64 < p2 k / 2"
      using c64_bounds by (intro divide_strict_left_mono) simp_all
    then show ?thesis by (simp add: t_def p2_pred)
  qed
  have "ulp_exp t = max (k - 2 - 52) (- 1074)"
  proof (rule ulp_exp_eq)
    show "p2 (k - 2) \<le> \<bar>t\<bar>" using lo tpos by simp
    show "\<bar>t\<bar> < p2 (k - 2 + 1)" using hi tpos by simp
  qed
  with assms have et: "ulp_exp t = k - 54" and k: "- 1074 \<le> k - 54"
    by (simp_all add: t_def)
  have ut: "ulp t = p2 (k - 54)"
    by (simp add: ulp_def et)
  have "t / ulp t = p2 k / p2 (k - 54) / c64"
    unfolding ut by (simp add: t_def)
  also have "p2 k / p2 (k - 54) = p2 54"
    using p2_diff [of k "k - 54"] by simp
  finally have q: "t / ulp t = 2 ^ 54 / c64"
    by (simp only: p2_54)
  have "round64 t = of_int (round_even (t / ulp t)) * ulp t"
    by (rule round64_grid)
  also have "\<dots> = of_int 5490788489984877 * p2 (k - 54)"
    by (simp only: q [unfolded ut] round_even_54 ut)
  finally have z: "round64 t = 5490788489984877 * p2 (k - 54)"
    by simp
  define x' where "x' = round64 t * c64"
  have x': "x' = (5490788489984877 * c64) * p2 (k - 54)"
    by (simp add: x'_def z)
  have pk: "p2 k = 2 ^ 54 * p2 (k - 54)"
    using p2_add [of 54 "k - 54"] by (simp add: p2_54)
  have below: "x' < p2 k"
    unfolding x' pk using c64_times_54(2) by (intro mult_strict_right_mono) simp_all
  have above: "p2 k - p2 (k - 54) < x'"
  proof -
    have "(2 ^ 54 - 1) * p2 (k - 54) < (5490788489984877 * c64) * p2 (k - 54)"
      using c64_times_54(1) by (intro mult_strict_right_mono) simp_all
    then show ?thesis
      unfolding x' pk by (simp add: algebra_simps)
  qed
  have half: "p2 (k - 54) = p2 (k - 53) / 2"
    using p2_pred [of "k - 53"] by simp
  have half': "p2 (k - 53) \<le> p2 (k - 1) / 2"
  proof -
    have a: "p2 (k - 53) \<le> p2 (k - 2)" by simp
    have b: "p2 (k - 2) = p2 (k - 1) / 2"
      using p2_pred [of "k - 1"] by simp
    from a b show ?thesis by linarith
  qed
  have "ulp_exp x' = max (k - 1 - 52) (- 1074)"
  proof (rule ulp_exp_eq)
    have "p2 k = 2 * p2 (k - 1)"
      using p2_Suc [of "k - 1"] by simp
    with above half half' p2_pos [of "k - 1"] have "p2 (k - 1) \<le> x'" by linarith
    moreover from this have "0 < x'" using p2_pos [of "k - 1"] by linarith
    ultimately show "p2 (k - 1) \<le> \<bar>x'\<bar>" by simp
    from below \<open>0 < x'\<close> show "\<bar>x'\<bar> < p2 (k - 1 + 1)" by simp
  qed
  with k have ex: "ulp_exp x' = k - 53" by simp
  have "round64 x' = p2 k"
  proof (rule round64_nearest [where n = 1 and e = k])
    show "p2 k = of_int 1 * p2 k" by simp
    show "ulp_exp x' \<le> k" by (simp add: ex)
    show "\<bar>p2 k - x'\<bar> < ulp x' / 2"
      using below above half by (simp add: ulp_def ex)
  qed
  then show ?thesis
    by (simp add: x'_def t_def)
qed

text \<open>
  Case A: the grid at the quotient is at most one step finer than the grid at the
  product. Then the quotient rounds back to the number the product came from.
\<close>

lemma quotient_rounds_back:
  assumes rep: "round64 r = r" and rpos: "0 < r"
    and fine: "ulp_exp (r * c64) - 1 \<le> ulp_exp (round64 (r * c64) / c64)"
  shows "round64 (round64 (r * c64) / c64) = r"
proof -
  define x where "x = r * c64"
  define y where "y = round64 x"
  define t where "t = y / c64"
  define T where "T = ulp_exp t"
  have rmin: "p2 (- 1074) \<le> r"
    using rep rpos by (rule representable_pos_ge)
  have "r \<le> x"
    using c64_bounds(1) rpos by (simp add: x_def)
  with rmin have xmin: "p2 (- 1074) \<le> x" by linarith
  have ypos: "0 < y"
    using round64_pos [OF xmin] p2_pos [of "- 1074"] xmin unfolding y_def by linarith
  then have tpos: "0 < t" by (simp add: t_def)
  have err: "\<bar>y - x\<bar> \<le> ulp x / 2"
    unfolding y_def by (rule round64_error)
  have "t - r = (y - x) / c64"
    by (simp add: t_def x_def diff_divide_distrib)
  then have "\<bar>t - r\<bar> = \<bar>y - x\<bar> / c64"
    by (simp add: abs_divide)
  also have "\<dots> \<le> (ulp x / 2) / c64"
    using err by (rule divide_right_mono) simp
  also have "\<dots> < (ulp x / 2) / 2"
    using c64_bounds(1) by (intro divide_strict_left_mono) simp_all
  finally have near: "\<bar>t - r\<bar> < ulp x / 4" by simp
  have "p2 (ulp_exp x - 1) \<le> p2 T"
    using fine by (simp add: x_def y_def t_def T_def)
  then have "ulp x / 2 \<le> ulp t"
    by (simp add: ulp_def p2_pred T_def)
  with near have close: "\<bar>r - t\<bar> < ulp t / 2" by linarith
  have grid: "T \<le> ulp_exp r"
  proof (rule ccontr)
    assume "\<not> T \<le> ulp_exp r"
    then have lt: "ulp_exp r < T" by simp
    with ulp_exp_ge [of r] have norm: "- 1074 < ulp_exp t" by (simp add: T_def)
    have "t \<noteq> 0" using tpos by simp
    from ulp_exp_normal(1) [OF this norm] tpos have tlow: "p2 (T + 52) \<le> t"
      by (simp add: T_def)
    have "r \<noteq> 0" using rpos by simp
    from ulp_exp_upper [OF this] rpos have "r < p2 (ulp_exp r + 53)" by simp
    moreover have "p2 (ulp_exp r + 53) \<le> p2 (T + 52)" using lt by simp
    ultimately have rup: "r < p2 (T + 52)" by linarith
    have ut: "ulp t = p2 T" by (simp add: ulp_def T_def)
    have h1: "p2 T / 2 = p2 (T - 1)" by (simp add: p2_pred)
    have h2: "p2 (T + 52) = 2 * p2 (T + 51)"
      using p2_Suc [of "T + 51"] by (simp add: add.commute)
    have h3: "p2 (T - 1) \<le> p2 (T + 51)" by simp
    from close tlow ut h1 have rlow: "p2 (T + 52) - p2 (T - 1) < r" by linarith
    have "ulp_exp r = max (T + 51 - 52) (- 1074)"
    proof (rule ulp_exp_eq)
      show "p2 (T + 51) \<le> \<bar>r\<bar>" using rlow h2 h3 rpos by linarith
      have "p2 (T + 51 + 1) = p2 (T + 52)"
        by (rule arg_cong [where f = p2]) simp
      then show "\<bar>r\<bar> < p2 (T + 51 + 1)" using rup rpos by linarith
    qed
    with norm have er: "ulp_exp r = T - 1" by (simp add: T_def)
    obtain m :: int where m: "r = of_int m * ulp r"
      using representable_multiple [OF rep] by blast
    then have m': "r = of_int m * p2 (T - 1)" by (simp add: ulp_def er)
    have "p2 (T + 52) = p2 (53 + (T - 1))"
      by (rule p2_eqI) simp
    also have "\<dots> = p2 53 * p2 (T - 1)"
      by (rule p2_add)
    finally have big: "p2 (T + 52) = 2 ^ 53 * p2 (T - 1)"
      by (simp only: p2_53)
    have "of_int m * p2 (T - 1) < of_int (2 ^ 53) * p2 (T - 1)"
      using rup m' big by simp
    then have "(of_int m :: real) < of_int (2 ^ 53)"
      by (simp only: mult_less_cancel_right_pos [OF p2_pos])
    then have "m < 2 ^ 53" by (simp only: of_int_less_iff)
    then have "m \<le> 2 ^ 53 - 1" by simp
    then have "(of_int m :: real) \<le> of_int (2 ^ 53 - 1)" by (simp only: of_int_le_iff)
    then have "of_int m * p2 (T - 1) \<le> of_int (2 ^ 53 - 1) * p2 (T - 1)"
      by (rule mult_right_mono) simp
    also have "\<dots> = p2 (T + 52) - p2 (T - 1)"
      by (simp add: big left_diff_distrib)
    finally have "r \<le> p2 (T + 52) - p2 (T - 1)" using m' by simp
    with rlow show False by linarith
  qed
  obtain m :: int where m: "r = of_int m * p2 (ulp_exp r)"
    using representable_multiple [OF rep] by (auto simp add: ulp_def)
  have "round64 t = r"
    using m grid close by (intro round64_nearest [of r m "ulp_exp r"]) (simp_all add: T_def)
  then show ?thesis
    by (simp add: t_def y_def x_def)
qed

lemma grid_gap:
  fixes a b g :: real
  assumes "a = of_int n * g" "b = of_int m * g" "0 < g" "\<bar>a - b\<bar> < g"
  shows "a = b"
proof -
  have "a - b = of_int (n - m) * g"
    using assms(1,2) by (simp add: left_diff_distrib)
  then have "\<bar>of_int (n - m) :: real\<bar> * g < 1 * g"
    using assms(3,4) by (simp add: abs_mult)
  then have "\<bar>of_int (n - m) :: real\<bar> < 1"
    by (simp only: mult_less_cancel_right_pos [OF assms(3)])
  then have "\<bar>n - m\<bar> < 1"
    by (metis of_int_abs of_int_less_1_iff)
  then have "n = m" by simp
  with assms(1,2) show ?thesis by simp
qed

text \<open>
  Case B: the grid at the quotient is at least two steps finer than the grid at the
  product. Then the rounded quotient, multiplied again, is nearer to the product than
  half a step of its grid.
\<close>

lemma product_rounds_back:
  assumes xmin: "p2 (- 1074) \<le> x"
    and coarse: "ulp_exp (round64 x / c64) \<le> ulp_exp x - 2"
  shows "round64 (round64 (round64 x / c64) * c64) = round64 x"
proof -
  define E where "E = ulp_exp x"
  define y where "y = round64 x"
  define t where "t = y / c64"
  define z where "z = round64 t"
  define x' where "x' = z * c64"
  have xpos: "0 < x" using xmin p2_pos [of "- 1074"] by linarith
  have u: "ulp x = p2 E" by (simp add: ulp_def E_def)
  have c': "ulp_exp t \<le> E - 2"
    using coarse by (simp add: t_def y_def E_def)
  with ulp_exp_ge [of t] have norm: "- 1074 < ulp_exp x" by (simp add: E_def)
  have yg: "y = of_int (round_even (x / ulp x)) * p2 E"
    unfolding y_def u [symmetric] by (rule round64_grid)
  have ylow: "p2 (E + 52) \<le> y"
    unfolding y_def E_def using xpos norm by (rule round64_lower)
  have yup: "y \<le> p2 (E + 53)"
    unfolding y_def E_def using xpos by (rule round64_upper)
  have "\<bar>z - t\<bar> \<le> ulp t / 2"
    unfolding z_def by (rule round64_error)
  moreover have "ulp t \<le> p2 (E - 2)"
    unfolding ulp_def using c' by simp
  moreover have "p2 (E - 2) = p2 E / 4"
    using p2_pred [of E] p2_pred [of "E - 1"] by simp
  ultimately have zt: "\<bar>z - t\<bar> \<le> p2 E / 8" by linarith
  have "x' - y = (z - t) * c64"
    by (simp add: x'_def t_def left_diff_distrib)
  then have "\<bar>x' - y\<bar> = \<bar>z - t\<bar> * c64"
    by (simp add: abs_mult)
  also have "\<dots> \<le> p2 E / 8 * c64"
    using zt by (rule mult_right_mono) simp
  also have "\<dots> < p2 E / 8 * 4"
    using c64_bounds(2) by (intro mult_strict_left_mono) simp_all
  finally have close: "\<bar>y - x'\<bar> < p2 E / 2" by (simp add: abs_minus_commute)
  have e52: "p2 (E + 52) = 2 ^ 52 * p2 E"
  proof -
    have "p2 (E + 52) = p2 (52 + E)" by (rule p2_eqI) simp
    also have "\<dots> = p2 52 * p2 E" by (rule p2_add)
    finally show ?thesis by (simp only: p2_52)
  qed
  have e53: "p2 (E + 53) = 2 ^ 53 * p2 E"
  proof -
    have "p2 (E + 53) = p2 (53 + E)" by (rule p2_eqI) simp
    also have "\<dots> = p2 53 * p2 E" by (rule p2_add)
    finally show ?thesis by (simp only: p2_53)
  qed
  have e52n: "p2 (E + 52) = 4503599627370496 * p2 E"
    using e52 by simp
  have e53n: "p2 (E + 53) = 9007199254740992 * p2 E"
    using e53 by simp
  have pE: "0 < p2 E" by simp
  have x'pos: "0 < x'"
    using close ylow e52n pE by linarith
  then have x'0: "x' \<noteq> 0" by simp
  consider (same) "ulp_exp x' = E" | (above) "E < ulp_exp x'" | (below) "ulp_exp x' < E"
    by linarith
  then have "round64 x' = y"
  proof cases
    case same
    show ?thesis
    proof (rule round64_nearest [OF yg])
      show "ulp_exp x' \<le> E" using same by simp
      show "\<bar>y - x'\<bar> < ulp x' / 2" using close by (simp add: ulp_def same)
    qed
  next
    case above
    with ulp_exp_ge [of x] have "- 1074 < ulp_exp x'" by (simp add: E_def)
    from ulp_exp_normal(1) [OF x'0 this] x'pos have "p2 (ulp_exp x' + 52) \<le> x'" by simp
    moreover have "p2 (E + 53) \<le> p2 (ulp_exp x' + 52)" using above by simp
    ultimately have low: "p2 (E + 53) \<le> x'" by linarith
    have "\<bar>y - p2 (E + 53)\<bar> < p2 E"
      using low close yup pE by linarith
    with yg have yeq: "y = p2 (E + 53)"
      by (intro grid_gap [of y _ "p2 E" "p2 (E + 53)" "2 ^ 53"]) (simp_all add: e53)
    have up: "x' < p2 (E + 53 + 1)"
    proof -
      have "p2 (E + 53 + 1) = 2 * p2 (E + 53)" by (rule p2_Suc)
      with close yeq e53n pE show ?thesis by linarith
    qed
    have "ulp_exp x' = max (E + 53 - 52) (- 1074)"
      using low up x'pos by (intro ulp_exp_eq) simp_all
    with norm have ex: "ulp_exp x' = E + 1" by (simp add: E_def)
    show ?thesis
    proof (rule round64_nearest [where n = 1 and e = "E + 53"])
      show "y = of_int 1 * p2 (E + 53)" using yeq by simp
      show "ulp_exp x' \<le> E + 53" by (simp add: ex)
      have "ulp x' = 2 * p2 E" by (simp add: ulp_def ex p2_Suc)
      with close pE show "\<bar>y - x'\<bar> < ulp x' / 2" by linarith
    qed
  next
    case below
    have "x' < p2 (ulp_exp x' + 53)"
      using ulp_exp_upper [OF x'0] x'pos by simp
    moreover have "p2 (ulp_exp x' + 53) \<le> p2 (E + 52)" using below by simp
    ultimately have up: "x' < p2 (E + 52)" by linarith
    have "\<bar>y - p2 (E + 52)\<bar> < p2 E"
      using up close ylow pE by linarith
    with yg have yeq: "y = p2 (E + 52)"
      by (intro grid_gap [of y _ "p2 E" "p2 (E + 52)" "2 ^ 52"]) (simp_all add: e52)
    have "ulp_exp (p2 (E + 52) / c64) \<le> E + 52 - 54"
      using c' by (simp add: t_def yeq)
    from special_pow2 [OF this] show ?thesis
      by (simp add: x'_def z_def t_def yeq)
  qed
  then show ?thesis
    by (simp add: x'_def z_def t_def y_def)
qed

lemma round_trip_pos:
  assumes "round64 r = r" "0 < r"
  shows "round64 (round64 (round64 (r * c64) / c64) * c64) = round64 (r * c64)"
proof (cases "ulp_exp (r * c64) - 1 \<le> ulp_exp (round64 (r * c64) / c64)")
  case True
  with assms have "round64 (round64 (r * c64) / c64) = r"
    by (rule quotient_rounds_back)
  then show ?thesis by simp
next
  case False
  then have coarse: "ulp_exp (round64 (r * c64) / c64) \<le> ulp_exp (r * c64) - 2" by simp
  have "p2 (- 1074) \<le> r"
    using assms by (rule representable_pos_ge)
  moreover have "r \<le> r * c64"
    using c64_bounds(1) assms(2) by simp
  ultimately have "p2 (- 1074) \<le> r * c64" by linarith
  then show ?thesis
    using coarse by (rule product_rounds_back)
qed

text \<open>
  The round trip of a double through the factor: the product, divided by the factor and
  multiplied by it again, rounds to the same double.
\<close>

lemma round_trip:
  assumes "round64 r = r"
  shows "round64 (round64 (round64 (r * c64) / c64) * c64) = round64 (r * c64)"
proof -
  consider "r = 0" | "0 < r" | "r < 0" by linarith
  then show ?thesis
  proof cases
    case 1
    then show ?thesis by simp
  next
    case 2
    with assms show ?thesis by (rule round_trip_pos)
  next
    case 3
    have "round64 (- r) = - r" using assms by (simp add: round64_minus)
    moreover have "0 < - r" using 3 by simp
    ultimately have
      "round64 (round64 (round64 (- r * c64) / c64) * c64) = round64 (- r * c64)"
      by (rule round_trip_pos)
    then show ?thesis
      by (simp add: round64_minus)
  qed
qed

subsection \<open>Doubles with overflow\<close>

lemma max_double_nonneg: "0 \<le> max_double"
  by (simp add: max_double_def)

lemma max_double_p2: "max_double = p2 1024 - p2 971"
proof -
  have "p2 1024 = p2 53 * p2 971"
    using p2_add [of 53 971] by simp
  then show ?thesis
    using p2_nat [of 971] by (simp add: max_double_def p2_53 left_diff_distrib)
qed

lemma max_double_ge: "p2 1023 + p2 969 \<le> max_double"
proof -
  have a: "p2 1024 = 2 * p2 1023" using p2_Suc [of 1023] by simp
  have b: "p2 971 \<le> p2 1022" by simp
  have c: "p2 1023 = 2 * p2 1022" using p2_Suc [of 1022] by simp
  have d: "p2 969 \<le> p2 971" by simp
  have e: "p2 971 \<le> p2 1021" by simp
  have f: "p2 1022 = 2 * p2 1021" using p2_Suc [of 1021] by simp
  from a b c d e f show ?thesis
    unfolding max_double_p2 using p2_pos [of 1021] by linarith
qed

text \<open>Rounding a number below \<open>2^1023\<close> in magnitude does not overflow.\<close>

lemma round64_no_overflow:
  assumes "\<bar>t\<bar> < p2 1023"
  shows "\<bar>round64 t\<bar> \<le> max_double"
proof (cases "t = 0")
  case True
  have "0 \<le> max_double"
    using max_double_ge p2_pos [of 1023] p2_pos [of 969] by linarith
  with True show ?thesis by simp
next
  case False
  have "ulp_exp t \<le> 970"
  proof (rule ccontr)
    assume "\<not> ulp_exp t \<le> 970"
    then have big: "971 \<le> ulp_exp t" by simp
    then have "- 1074 < ulp_exp t" by simp
    from ulp_exp_normal(1) [OF False this] have "p2 (ulp_exp t + 52) \<le> \<bar>t\<bar>" .
    moreover have "p2 1023 \<le> p2 (ulp_exp t + 52)" using big by simp
    ultimately show False using assms by linarith
  qed
  then have "p2 (ulp_exp t) \<le> p2 970" by simp
  then have u: "ulp t \<le> p2 970" by (simp add: ulp_def)
  have h: "p2 970 = 2 * p2 969" using p2_Suc [of 969] by simp
  have "\<bar>round64 t - t\<bar> \<le> ulp t / 2" by (rule round64_error)
  with u h assms have "\<bar>round64 t\<bar> < p2 1023 + p2 969" by linarith
  with max_double_ge show ?thesis by linarith
qed

lemma fl64_Fin:
  assumes "\<bar>round64 x\<bar> \<le> max_double"
  shows "fl64 x = Fin (round64 x)"
  using assms by (simp add: fl64_def abs_le_iff)

lemma fl64_representable:
  assumes "x = of_int n * p2 e" "\<bar>n\<bar> < 2 ^ 53" "- 1074 \<le> e" "\<bar>x\<bar> \<le> max_double"
  shows "fl64 x = Fin x"
proof -
  have "round64 x = x"
    using assms(1-3) by (rule round64_representable)
  with assms(4) show ?thesis
    by (simp add: fl64_Fin)
qed

lemma fl64_0 [simp]: "fl64 0 = Fin 0"
  using max_double_nonneg by (simp add: fl64_def)

lemma max_double_ge_1: "1 \<le> max_double"
  by (simp add: max_double_def)

lemma fl64_1 [simp]: "fl64 1 = Fin 1"
  by (rule fl64_representable [where n = 1 and e = 0]) (simp_all add: max_double_ge_1)

lemma fl64_minus_1 [simp]: "fl64 (- 1) = Fin (- 1)"
  by (rule fl64_representable [where n = "- 1" and e = 0]) (simp_all add: max_double_ge_1)

lemma fl64_numeral [simp]:
  "numeral k < (2 :: int) ^ 53 \<Longrightarrow> fl64 (numeral k) = Fin (numeral k)"
  "numeral k < (2 :: int) ^ 53 \<Longrightarrow> fl64 (- numeral k) = Fin (- numeral k)"
proof -
  assume k: "numeral k < (2 :: int) ^ 53"
  have m: "(numeral k :: real) \<le> max_double"
  proof -
    have "(numeral k :: real) = of_int (numeral k)" by simp
    also have "\<dots> \<le> of_int (2 ^ 53)" using k by (simp only: of_int_le_iff)
    also have "\<dots> \<le> max_double" by (simp add: max_double_def)
    finally show ?thesis .
  qed
  show "fl64 (numeral k) = Fin (numeral k)"
    using k m by (intro fl64_representable [where n = "numeral k" and e = 0]) simp_all
  show "fl64 (- numeral k) = Fin (- numeral k)"
    using k m by (intro fl64_representable [where n = "- numeral k" and e = 0]) simp_all
qed

lemma fl64_cases:
  "fl64 x = PInf \<and> max_double < round64 x \<or>
   fl64 x = NInf \<and> round64 x < - max_double \<or>
   fl64 x = Fin (round64 x) \<and> \<bar>round64 x\<bar> \<le> max_double"
  by (simp add: fl64_def abs_le_iff)

lemma max_double_lt: "max_double < p2 1024"
  unfolding max_double_p2 using p2_pos [of 971] by linarith

text \<open>
  Multiplying a double by the factor, dividing the product by it and multiplying
  again gives the first product once more, also when that is an infinity.
\<close>

lemma reconvert_same:
  assumes "is_double r"
  shows "mul64 (div64 (mul64 (Fin r) (Fin c64)) (Fin c64)) (Fin c64) = mul64 (Fin r) (Fin c64)"
proof -
  from assms have rep: "round64 r = r" by (simp add: is_double_def)
  define y where "y = round64 (r * c64)"
  consider (pos) "fl64 (r * c64) = PInf" | (neg) "fl64 (r * c64) = NInf"
    | (fin) "fl64 (r * c64) = Fin y" "\<bar>y\<bar> \<le> max_double"
    using fl64_cases [of "r * c64"] by (auto simp add: y_def)
  then show ?thesis
  proof cases
    case pos
    then show ?thesis by (simp add: signed_inf_def)
  next
    case neg
    have "\<not> c64 < 0" using c64_pos by linarith
    with neg show ?thesis by (simp add: signed_inf_def)
  next
    case fin
    have "\<bar>y / c64\<bar> = \<bar>y\<bar> / c64" by (simp add: abs_divide)
    also have "\<dots> \<le> \<bar>y\<bar> / 2"
      using c64_bounds(1) by (intro divide_left_mono) simp_all
    also have "\<dots> \<le> max_double / 2" using fin(2) by simp
    also have "\<dots> < p2 1023"
      using max_double_lt p2_Suc [of 1023] by simp
    finally have "\<bar>round64 (y / c64)\<bar> \<le> max_double"
      by (rule round64_no_overflow)
    then have q: "fl64 (y / c64) = Fin (round64 (y / c64))"
      by (rule fl64_Fin)
    have "round64 (round64 (y / c64) * c64) = y"
      unfolding y_def using rep by (rule round_trip)
    with fin(2) have "fl64 (round64 (y / c64) * c64) = Fin y"
      by (simp add: fl64_Fin)
    with fin(1) q show ?thesis by simp
  qed
qed

lemma mul64_not_NaN: "mul64 (Fin r) (Fin c64) \<noteq> NaN"
  by (simp add: fl64_def)

text \<open>The constant is the double that the literal \<^verbatim>\<open>3.28084\<close> denotes.\<close>

lemma round64_literal: "round64 3.28084 = c64"
proof (rule round64_nearest [where n = 7387794900731109 and e = "- 51"])
  have p: "p2 (- 51) = 1 / 2 ^ 51"
    by (rule p2_neg_numeral)
  show "c64 = of_int 7387794900731109 * p2 (- 51)"
    by (simp add: c64_def p)
  have e: "ulp_exp 3.28084 = max (1 - 52) (- 1074)"
    by (rule ulp_exp_eq) (simp_all add: p2_numeral)
  then show "ulp_exp 3.28084 \<le> - 51" by simp
  from e have "ulp 3.28084 = p2 (- 51)" by (simp add: ulp_def)
  then show "\<bar>c64 - 3.28084\<bar> < ulp 3.28084 / 2"
    by (simp add: p c64_def abs_less_iff)
qed

subsection \<open>Rounding is monotone\<close>

text \<open>A rounded number is a double, and rounding keeps the order.\<close>

lemma round64_idem: "round64 (round64 x) = round64 x"
proof (cases "x = 0")
  case True
  then show ?thesis by simp
next
  case False
  define E where "E = ulp_exp x"
  define N where "N = round_even (x / p2 E)"
  have r: "round64 x = of_int N * p2 E"
    by (simp add: round64_def ulp_def N_def E_def)
  have up: "\<bar>x\<bar> < p2 (E + 53)"
    unfolding E_def using False by (rule ulp_exp_upper)
  have e53: "p2 (E + 53) = 2 ^ 53 * p2 E"
    by (simp add: p2_add p2_nat [of 53, simplified] mult.commute)
  have "\<bar>x / p2 E\<bar> = \<bar>x\<bar> / p2 E" by simp
  also have "\<dots> < 2 ^ 53"
    using up e53 by (simp add: pos_divide_less_eq)
  finally have q: "\<bar>x / p2 E\<bar> < 2 ^ 53" .
  from q have q1: "x / p2 E < 2 ^ 53" and q2: "- (x / p2 E) < 2 ^ 53"
    unfolding abs_less_iff by blast+
  have "x / p2 E \<le> of_int (2 ^ 53)" using q1 by simp
  then have hi: "N \<le> 2 ^ 53" unfolding N_def by (rule round_even_le)
  have "of_int (- (2 ^ 53)) \<le> x / p2 E" using q2 by simp
  then have lo: "- (2 ^ 53) \<le> N" unfolding N_def by (rule round_even_ge)
  have Ege: "- 1074 \<le> E" unfolding E_def by (rule ulp_exp_ge)
  consider "\<bar>N\<bar> < 2 ^ 53" | "N = 2 ^ 53" | "N = - (2 ^ 53)"
    using hi lo by linarith
  then have "round64 (of_int N * p2 E) = of_int N * p2 E"
  proof cases
    case 1
    show ?thesis
      by (rule round64_representable [OF refl 1 Ege])
  next
    case 2
    have "of_int N * p2 E = of_int 1 * p2 (E + 53)"
      using 2 e53 by simp
    then show ?thesis
      using Ege by (intro round64_representable [where n = 1 and e = "E + 53"]) simp_all
  next
    case 3
    have "of_int N * p2 E = of_int (- 1) * p2 (E + 53)"
      using 3 e53 by simp
    then show ?thesis
      using Ege by (intro round64_representable [where n = "- 1" and e = "E + 53"]) simp_all
  qed
  then show ?thesis by (simp add: r)
qed

lemma round64_le_double:
  assumes "x \<le> d" "round64 d = d"
  shows "round64 x \<le> d"
proof (rule ccontr)
  assume "\<not> round64 x \<le> d"
  then have gt: "d < round64 x" by simp
  define E where "E = ulp_exp x"
  define N where "N = round_even (x / p2 E)"
  have r: "round64 x = of_int N * p2 E"
    by (simp add: round64_def ulp_def N_def E_def)
  have err: "\<bar>round64 x - x\<bar> \<le> p2 E / 2"
    using round64_error [of x] by (simp add: ulp_def E_def)
  show False
  proof (cases "E \<le> ulp_exp d")
    case True
    from representable_multiple [OF assms(2)] obtain n where "d = of_int n * p2 (ulp_exp d)"
      by (auto simp add: ulp_def)
    with grid_coarser [OF True, of n] obtain m where d: "d = of_int m * p2 E"
      by auto
    have "\<bar>round64 x - d\<bar> < p2 E"
      using gt assms(1) err p2_pos [of E] by linarith
    from grid_gap [OF r d p2_pos this] gt show False by simp
  next
    case False
    then have lt: "ulp_exp d < E" by simp
    have x0: "x \<noteq> 0"
    proof
      assume "x = 0"
      then have "E = - 1074" by (simp add: E_def ulp_exp_def)
      with lt ulp_exp_ge [of d] show False by simp
    qed
    have normal: "- 1074 < E"
      using lt ulp_exp_ge [of d] by simp
    have xP: "p2 (E + 52) \<le> \<bar>x\<bar>"
      unfolding E_def by (rule ulp_exp_normal(1) [OF x0 normal [unfolded E_def]])
    have dP: "\<bar>d\<bar> < p2 (E + 52)"
    proof (cases "d = 0")
      case True
      then show ?thesis by simp
    next
      case False
      from ulp_exp_upper [OF this] have "\<bar>d\<bar> < p2 (ulp_exp d + 53)" .
      moreover have "p2 (ulp_exp d + 53) \<le> p2 (E + 52)" using lt by simp
      ultimately show ?thesis by linarith
    qed
    have xneg: "x \<le> - p2 (E + 52)"
      using xP dP assms(1) by linarith
    have P: "- p2 (E + 52) = of_int (- (2 ^ 52)) * p2 E"
      by (simp add: p2_add p2_nat [of 52, simplified] mult.commute)
    have "\<bar>round64 x - (- p2 (E + 52))\<bar> < p2 E \<Longrightarrow> round64 x = - p2 (E + 52)"
      by (rule grid_gap [OF r P p2_pos])
    moreover have "- p2 (E + 52) < round64 x"
      using gt dP by linarith
    ultimately have "p2 E \<le> round64 x - (- p2 (E + 52))"
      by linarith
    with xneg err p2_pos [of E] show False by linarith
  qed
qed

lemma round64_ge_double:
  assumes "d \<le> x" "round64 d = d"
  shows "d \<le> round64 x"
proof -
  have "round64 (- x) \<le> - d"
    using assms by (intro round64_le_double) (simp_all add: round64_minus)
  then show ?thesis by (simp add: round64_minus)
qed

lemma round64_nonneg:
  assumes "0 \<le> x"
  shows "0 \<le> round64 x"
  using assms by (rule round64_ge_double) simp

text \<open>A number between a rounded value and the number that was rounded lies on the same grid.\<close>

lemma ulp_exp_between:
  assumes "round64 y < x" "x \<le> y"
  shows "ulp_exp x = ulp_exp y"
proof -
  consider (pos) "0 < y" | (zero) "y = 0" | (neg) "y < 0" by linarith
  then show ?thesis
  proof cases
    case pos
    then have a0: "0 \<le> round64 y" by (intro round64_nonneg) simp
    show ?thesis
    proof (cases "- 1074 < ulp_exp y")
      case False
      then have y: "ulp_exp y = - 1074" using ulp_exp_ge [of y] by simp
      have "x \<noteq> 0" "\<bar>x\<bar> \<le> \<bar>y\<bar>" using a0 assms by simp_all
      then have "ulp_exp x \<le> ulp_exp y" by (rule ulp_exp_mono)
      with y ulp_exp_ge [of x] show ?thesis by simp
    next
      case True
      from round64_lower [OF pos True] have "p2 (ulp_exp y + 52) \<le> round64 y" .
      with assms have lo: "p2 (ulp_exp y + 52) \<le> \<bar>x\<bar>" by simp
      have "y \<noteq> 0" using pos by simp
      from ulp_exp_upper [OF this] have "\<bar>y\<bar> < p2 (ulp_exp y + 53)" .
      with assms a0 have "\<bar>x\<bar> < p2 (ulp_exp y + 53)" by simp
      then have hi: "\<bar>x\<bar> < p2 (ulp_exp y + 52 + 1)" by (simp add: add.commute add.left_commute)
      from ulp_exp_eq [OF lo hi] True show ?thesis by simp
    qed
  next
    case zero
    with assms show ?thesis by simp
  next
    case neg
    have "y \<noteq> 0" "\<bar>y\<bar> \<le> \<bar>x\<bar>" using neg assms by simp_all
    then have le: "ulp_exp y \<le> ulp_exp x" by (rule ulp_exp_mono)
    show ?thesis
    proof (rule ccontr)
      assume "ulp_exp x \<noteq> ulp_exp y"
      with le have lt: "ulp_exp y < ulp_exp x" by simp
      then have normal: "- 1074 < ulp_exp x" using ulp_exp_ge [of y] by simp
      have "x \<noteq> 0" using neg assms by simp
      from ulp_exp_normal(1) [OF this normal] have "p2 (ulp_exp x + 52) \<le> \<bar>x\<bar>" .
      then have xP: "x \<le> - p2 (ulp_exp x + 52)" using neg assms by simp
      have "0 < - y" using neg by simp
      from round64_upper [OF this] have "- round64 y \<le> p2 (ulp_exp y + 53)"
        by (simp add: round64_minus)
      moreover have "p2 (ulp_exp y + 53) \<le> p2 (ulp_exp x + 52)" using lt by simp
      ultimately have "- p2 (ulp_exp x + 52) \<le> round64 y" by linarith
      with xP assms show False by linarith
    qed
  qed
qed

lemma round64_mono:
  assumes "x \<le> y"
  shows "round64 x \<le> round64 y"
proof (cases "x \<le> round64 y")
  case True
  then show ?thesis
    by (rule round64_le_double) (rule round64_idem)
next
  case False
  then have ax: "round64 y < x" by simp
  show ?thesis
  proof (cases "x = y")
    case True
    then show ?thesis by simp
  next
    case False
    with assms have xy: "x < y" by simp
    have E: "ulp_exp x = ulp_exp y"
      using ax assms by (rule ulp_exp_between)
    then have u: "ulp x = ulp y" by (simp add: ulp_def)
    have "\<bar>round64 y - y\<bar> \<le> ulp y / 2" by (rule round64_error)
    with ax xy u have near: "\<bar>round64 y - x\<bar> < ulp x / 2" by linarith
    have "round64 x = round64 y"
    proof (rule round64_nearest [OF _ _ near])
      show "round64 y = of_int (round_even (y / ulp y)) * p2 (ulp_exp y)"
        by (simp add: round64_def ulp_def)
      show "ulp_exp x \<le> ulp_exp y" using E by simp
    qed
    then show ?thesis by simp
  qed
qed

lemma fl64_mono:
  assumes "x \<le> y"
  shows "js_le (fl64 x) (fl64 y)"
  using round64_mono [OF assms] by (simp add: fl64_def)

lemma Math_abs_fl64: "Math_abs (fl64 t) = fl64 \<bar>t\<bar>"
proof (cases "0 \<le> t")
  case True
  then have "0 \<le> round64 t" by (rule round64_nonneg)
  with True max_double_nonneg show ?thesis
    by (simp add: fl64_def)
next
  case False
  then have "0 \<le> - t" by simp
  then have "0 \<le> round64 (- t)" by (rule round64_nonneg)
  then have "round64 t \<le> 0" by (simp add: round64_minus)
  moreover have "\<bar>t\<bar> = - t" using False by simp
  ultimately show ?thesis
    using max_double_nonneg by (simp add: fl64_def round64_minus)
qed

lemma js_le_fl64_trans:
  assumes "js_le (fl64 a) (fl64 b)" "js_le (fl64 b) (fl64 c)"
  shows "js_le (fl64 a) (fl64 c)"
  using assms by (simp add: fl64_def split: if_splits)

lemma js_le_fl64_total: "js_le (fl64 a) (fl64 b) \<or> js_le (fl64 b) (fl64 a)"
  by (simp add: fl64_def) linarith

subsection \<open>The rounding on known doubles\<close>

lemma round64_at:
  assumes "p2 k \<le> \<bar>x\<bar>" "\<bar>x\<bar> < p2 (k + 1)" "e = max (k - 52) (- 1074)"
  shows "round64 x = of_int (round_even (x / p2 e)) * p2 e"
  using ulp_exp_eq [OF assms(1,2)] assms(3) by (simp add: round64_def ulp_def)

text \<open>
  The rounding on known cases: one tenth, two ties at \<open>2^53\<close>, and the tie below the
  smallest subnormal number.
\<close>

lemma round64_tenth: "round64 (1 / 10) = 3602879701896397 / 2 ^ 55"
proof -
  have "round64 (1 / 10) = of_int (round_even (1 / 10 / p2 (- 56))) * p2 (- 56)"
    by (rule round64_at [where k = "- 4"]) (simp_all add: p2_neg_numeral)
  also have "round_even (1 / 10 / p2 (- 56)) = 7205759403792794"
    by (rule round_even_unique) (simp add: p2_neg_numeral abs_less_iff)
  finally show ?thesis by (simp add: p2_neg_numeral)
qed

lemma round64_ties:
  "round64 (2 ^ 53 + 1) = 2 ^ 53" "round64 (2 ^ 53 + 3) = 2 ^ 53 + 4"
proof -
  have "round64 (2 ^ 53 + 1) = of_int (round_even ((2 ^ 53 + 1) / p2 1)) * p2 1"
    by (rule round64_at [where k = 53]) (simp_all add: p2_numeral)
  also have "round_even ((2 ^ 53 + 1) / p2 1) = 2 ^ 52"
    by (simp add: round_even_def)
  finally show "round64 (2 ^ 53 + 1) = 2 ^ 53" by simp
  have "round64 (2 ^ 53 + 3) = of_int (round_even ((2 ^ 53 + 3) / p2 1)) * p2 1"
    by (rule round64_at [where k = 53]) (simp_all add: p2_numeral)
  also have "round_even ((2 ^ 53 + 3) / p2 1) = 2 ^ 52 + 2"
    by (simp add: round_even_def)
  finally show "round64 (2 ^ 53 + 3) = 2 ^ 53 + 4" by simp
qed

lemma round64_underflow: "round64 (p2 (- 1075)) = 0" "round64 (3 * p2 (- 1075)) = 2 * p2 (- 1074)"
proof -
  have h: "p2 (- 1075) = p2 (- 1074) / 2"
    using p2_pred [of "- 1074"] by simp
  have "round64 (p2 (- 1075)) = of_int (round_even (p2 (- 1075) / p2 (- 1074))) * p2 (- 1074)"
    by (rule round64_at [where k = "- 1075"]) simp_all
  also have "round_even (p2 (- 1075) / p2 (- 1074)) = 0"
    by (simp add: h round_even_def)
  finally show "round64 (p2 (- 1075)) = 0" by simp
  have "round64 (3 * p2 (- 1075)) =
      of_int (round_even (3 * p2 (- 1075) / p2 (- 1074))) * p2 (- 1074)"
  proof (rule round64_at [where k = "- 1074"])
    show "p2 (- 1074) \<le> \<bar>3 * p2 (- 1075)\<bar>" using p2_pos [of "- 1074"] by (simp add: h)
    have "p2 (- 1074 + 1) = 2 * p2 (- 1074)" by (rule p2_Suc)
    then show "\<bar>3 * p2 (- 1075)\<bar> < p2 (- 1074 + 1)"
      using p2_pos [of "- 1074"] by (simp add: h)
    show "(- 1074 :: int) = max (- 1074 - 52) (- 1074)" by simp
  qed
  also have "round_even (3 * p2 (- 1075) / p2 (- 1074)) = 2"
    by (simp add: h round_even_def)
  finally show "round64 (3 * p2 (- 1075)) = 2 * p2 (- 1074)" by simp
qed

section \<open>Sines and cosines of doubles\<close>

subsection \<open>The double nearest to a number between two bounds\<close>

lemma fl64_pin:
  assumes "p2 k \<le> \<bar>x\<bar>" "\<bar>x\<bar> < p2 (k + 1)" "- 1022 \<le> k" "k \<le> 1022"
    and "d = of_int n * p2 (k - 52)" "\<bar>d - x\<bar> < p2 (k - 52) / 2"
  shows "fl64 x = Fin d"
proof -
  have e: "ulp_exp x = k - 52"
    using ulp_exp_eq [OF assms(1,2)] assms(3) by simp
  then have u: "ulp x = p2 (k - 52)" by (simp add: ulp_def)
  have r: "round64 x = d"
  proof (rule round64_nearest [OF assms(5)])
    show "ulp_exp x \<le> k - 52" by (simp add: e)
    show "\<bar>d - x\<bar> < ulp x / 2" unfolding u by (rule assms(6))
  qed
  have "p2 (k + 1) \<le> p2 1023" using assms(4) by simp
  with assms(2) have "\<bar>x\<bar> < p2 1023" by linarith
  then have "\<bar>round64 x\<bar> \<le> max_double" by (rule round64_no_overflow)
  then show ?thesis
    using r by (simp add: fl64_Fin)
qed

lemma round_even_tie:
  assumes "even n" "\<bar>of_int n - t\<bar> = 1 / 2"
  shows "round_even t = n"
proof -
  consider (above) "t = of_int n + 1 / 2" | (below) "t = of_int n - 1 / 2"
    using assms(2) by (auto simp add: abs_if split: if_splits)
  then show ?thesis
  proof cases
    case above
    have "\<lfloor>t\<rfloor> = n" unfolding above by (rule floor_unique) simp_all
    then show ?thesis
      using assms(1) above by (simp add: round_even_def)
  next
    case below
    have "\<lfloor>t\<rfloor> = n - 1" unfolding below by (rule floor_unique) simp_all
    then show ?thesis
      using assms(1) below by (simp add: round_even_def)
  qed
qed

text \<open>An exact result half-way between two doubles goes to the one with the even significand.\<close>

lemma fl64_pin_even:
  assumes "p2 k \<le> \<bar>x\<bar>" "\<bar>x\<bar> < p2 (k + 1)" "- 1022 \<le> k" "k \<le> 1022"
    and "d = of_int n * p2 (k - 52)" "even n" "\<bar>d - x\<bar> = p2 (k - 52) / 2"
  shows "fl64 x = Fin d"
proof -
  have "round64 x = of_int (round_even (x / p2 (k - 52))) * p2 (k - 52)"
    using assms(1,2) by (rule round64_at) (use assms(3) in simp)
  moreover have "round_even (x / p2 (k - 52)) = n"
  proof (rule round_even_tie [OF assms(6)])
    have "of_int n - x / p2 (k - 52) = (d - x) / p2 (k - 52)"
      by (simp add: assms(5) diff_divide_distrib)
    then have "\<bar>of_int n - x / p2 (k - 52)\<bar> = \<bar>d - x\<bar> / p2 (k - 52)"
      by (simp add: abs_divide)
    also have "\<dots> = 1 / 2"
      unfolding assms(7) by simp
    finally show "\<bar>of_int n - x / p2 (k - 52)\<bar> = 1 / 2" .
  qed
  ultimately have r: "round64 x = d" by (simp add: assms(5))
  have "p2 (k + 1) \<le> p2 1023" using assms(4) by simp
  with assms(2) have "\<bar>x\<bar> < p2 1023" by linarith
  then have "\<bar>round64 x\<bar> \<le> max_double" by (rule round64_no_overflow)
  then show ?thesis
    using r by (simp add: fl64_Fin)
qed

lemma fl64_pin_between:
  assumes "lo \<le> x" "x \<le> hi" "p2 k \<le> lo" "hi < p2 (k + 1)" "- 1022 \<le> k" "k \<le> 1022"
    and "d = of_int n * p2 (k - 52)" "d - p2 (k - 52) / 2 < lo" "hi < d + p2 (k - 52) / 2"
  shows "fl64 x = Fin d"
proof (rule fl64_pin [OF _ _ assms(5,6,7)])
  have "0 < x" using assms(1,3) p2_pos [of k] by linarith
  then have a: "\<bar>x\<bar> = x" by simp
  show "p2 k \<le> \<bar>x\<bar>" unfolding a using assms(1,3) by linarith
  show "\<bar>x\<bar> < p2 (k + 1)" unfolding a using assms(2,4) by linarith
  show "\<bar>d - x\<bar> < p2 (k - 52) / 2" using assms(1,2,8,9) by linarith
qed

lemma fl64_near_one:
  assumes "1 - 1 / 2 ^ 54 < x" "x \<le> 1"
  shows "fl64 x = Fin 1"
proof (cases "x = 1")
  case True
  then show ?thesis by simp
next
  case False
  show ?thesis
  proof (rule fl64_pin [where k = "- 1" and n = "2 ^ 53"])
    show "p2 (- 1) \<le> \<bar>x\<bar>" using assms(1) by (simp add: p2_minus_1)
    show "\<bar>x\<bar> < p2 (- 1 + 1)" using assms False by simp
    show "(1 :: real) = of_int (2 ^ 53) * p2 (- 1 - 52)" by (simp add: p2_neg_numeral)
    show "\<bar>1 - x\<bar> < p2 (- 1 - 52) / 2" using assms by (simp add: p2_neg_numeral)
  qed simp_all
qed

lemma fl64_pi64: "fl64 pi64 = Fin pi64"
  by (rule fl64_representable [where n = 884279719003555 and e = "- 48"])
    (simp_all add: pi64_def p2_neg_numeral max_double_def)

subsection \<open>The partial sums and the remainders of the two series\<close>

lemma tsum_sum:
  "tsum n (x * x) (real j) (c * x ^ j / fact j) =
     (\<Sum>i<n. (- 1) ^ i * c * x ^ (j + 2 * i) / fact (j + 2 * i))"
proof (induction n arbitrary: j c)
  case 0
  show ?case by simp
next
  case (Suc n)
  have f: "(fact (j + 2) :: real) = fact j * ((real j + 1) * (real j + 2))"
    by (simp add: algebra_simps)
  have nz: "(real j + 1) * (real j + 2) \<noteq> 0" "(fact j :: real) \<noteq> 0"
    by simp_all
  have t: "- (c * x ^ j / fact j * (x * x)) / ((real j + 1) * (real j + 2)) =
      (- c) * x ^ (j + 2) / fact (j + 2)"
    unfolding f by (simp add: power_add power2_eq_square)
  have r: "real j + 2 = real (j + 2)" by simp
  have "tsum (Suc n) (x * x) (real j) (c * x ^ j / fact j) =
      c * x ^ j / fact j + tsum n (x * x) (real j + 2)
        (- (c * x ^ j / fact j * (x * x)) / ((real j + 1) * (real j + 2)))"
    by (simp only: tsum.simps)
  also have "\<dots> =
      c * x ^ j / fact j + tsum n (x * x) (real (j + 2)) ((- c) * x ^ (j + 2) / fact (j + 2))"
    by (simp only: t) (simp only: r)
  also have "\<dots> = c * x ^ j / fact j +
      (\<Sum>i<n. (- 1) ^ i * (- c) * x ^ (j + 2 + 2 * i) / fact (j + 2 + 2 * i))"
    by (simp only: Suc.IH)
  also have "\<dots> = (\<Sum>i<Suc n. (- 1) ^ i * c * x ^ (j + 2 * i) / fact (j + 2 * i))"
    by (simp only: sum.lessThan_Suc_shift) simp
  finally show ?case .
qed

lemma sin_sum:
  "(\<Sum>m<2 * n + 1. sin_coeff m * x ^ m) = tsum n (x * x) 1 x"
proof -
  have "(\<Sum>m<2 * n + 1. sin_coeff m * x ^ m) =
      (\<Sum>i<n. (- 1) ^ i * 1 * x ^ (1 + 2 * i) / fact (1 + 2 * i))"
  proof (induction n)
    case 0
    show ?case by (simp add: sin_coeff_def)
  next
    case (Suc n)
    have s: "2 * Suc n + 1 = Suc (Suc (2 * n + 1))" by simp
    have c1: "sin_coeff (Suc (2 * n + 1)) = 0"
      by (simp add: sin_coeff_def)
    have c2: "sin_coeff (2 * n + 1) = (- 1) ^ n / fact (2 * n + 1)"
      by (simp add: sin_coeff_def)
    have "(\<Sum>m<2 * Suc n + 1. sin_coeff m * x ^ m) =
        (\<Sum>m<2 * n + 1. sin_coeff m * x ^ m) + sin_coeff (2 * n + 1) * x ^ (2 * n + 1)
          + sin_coeff (Suc (2 * n + 1)) * x ^ Suc (2 * n + 1)"
      by (simp only: s sum.lessThan_Suc)
    also have "\<dots> = (\<Sum>i<n. (- 1) ^ i * 1 * x ^ (1 + 2 * i) / fact (1 + 2 * i))
        + (- 1) ^ n / fact (2 * n + 1) * x ^ (2 * n + 1)"
      by (simp only: Suc.IH c1 c2)
    also have "\<dots> = (\<Sum>i<Suc n. (- 1) ^ i * 1 * x ^ (1 + 2 * i) / fact (1 + 2 * i))"
      by (simp only: sum.lessThan_Suc) (simp add: add.commute)
    finally show ?case .
  qed
  also have "\<dots> = tsum n (x * x) (real 1) (1 * x ^ 1 / fact 1)"
    by (rule tsum_sum [symmetric])
  finally show ?thesis by simp
qed

lemma cos_sum:
  "(\<Sum>m<2 * n. cos_coeff m * x ^ m) = tsum n (x * x) 0 1"
proof -
  have "(\<Sum>m<2 * n. cos_coeff m * x ^ m) =
      (\<Sum>i<n. (- 1) ^ i * 1 * x ^ (0 + 2 * i) / fact (0 + 2 * i))"
  proof (induction n)
    case 0
    show ?case by simp
  next
    case (Suc n)
    have s: "2 * Suc n = Suc (Suc (2 * n))" by simp
    have c1: "cos_coeff (Suc (2 * n)) = 0"
      by (simp add: cos_coeff_def)
    have c2: "cos_coeff (2 * n) = (- 1) ^ n / fact (2 * n)"
      by (simp add: cos_coeff_def)
    have "(\<Sum>m<2 * Suc n. cos_coeff m * x ^ m) =
        (\<Sum>m<2 * n. cos_coeff m * x ^ m) + cos_coeff (2 * n) * x ^ (2 * n)
          + cos_coeff (Suc (2 * n)) * x ^ Suc (2 * n)"
      by (simp only: s sum.lessThan_Suc)
    also have "\<dots> = (\<Sum>i<n. (- 1) ^ i * 1 * x ^ (0 + 2 * i) / fact (0 + 2 * i))
        + (- 1) ^ n / fact (2 * n) * x ^ (2 * n)"
      by (simp only: Suc.IH c1 c2)
    also have "\<dots> = (\<Sum>i<Suc n. (- 1) ^ i * 1 * x ^ (0 + 2 * i) / fact (0 + 2 * i))"
      by (simp only: sum.lessThan_Suc) (simp add: add.commute)
    finally show ?case .
  qed
  also have "\<dots> = tsum n (x * x) (real 0) (1 * x ^ 0 / fact 0)"
    by (rule tsum_sum [symmetric])
  finally show ?thesis by simp
qed

lemma sin_taylor:
  "\<bar>sin x - tsum n (x * x) 1 x\<bar> \<le> \<bar>x\<bar> ^ (2 * n + 1) / fact (2 * n + 1)"
  using Maclaurin_sin_bound [of x "2 * n + 1"]
  by (simp only: sin_sum) (simp add: divide_inverse mult.commute)

lemma cos_taylor:
  "\<bar>cos x - tsum n (x * x) 0 1\<bar> \<le> \<bar>x\<bar> ^ (2 * n) / fact (2 * n)"
proof -
  from Maclaurin_cos_expansion [of x "2 * n"] obtain t where
    "cos x = (\<Sum>m<2 * n. cos_coeff m * x ^ m) + (cos (t + 1/2 * real (2 * n) * pi) / fact (2 * n)) * x ^ (2 * n)"
    by blast
  then have "cos x - tsum n (x * x) 0 1 =
      cos (t + 1/2 * real (2 * n) * pi) * (x ^ (2 * n) / fact (2 * n))"
    by (simp only: cos_sum) simp
  then have "\<bar>cos x - tsum n (x * x) 0 1\<bar> =
      \<bar>cos (t + 1/2 * real (2 * n) * pi)\<bar> * (\<bar>x\<bar> ^ (2 * n) / fact (2 * n))"
    by (simp only: abs_mult abs_divide power_abs) simp
  also have "\<dots> \<le> 1 * (\<bar>x\<bar> ^ (2 * n) / fact (2 * n))"
    by (intro mult_right_mono abs_cos_le_one) simp
  finally show ?thesis by simp
qed

subsection \<open>Computed bounds of the partial sums\<close>

lemma down_le: "down v \<le> v"
proof -
  have "of_int \<lfloor>v * 2 ^ 80\<rfloor> \<le> v * 2 ^ 80" by (rule of_int_floor_le)
  then show ?thesis by (simp add: down_def pos_divide_le_eq)
qed

lemma up_ge: "v \<le> up v"
proof -
  have "v * 2 ^ 80 \<le> of_int \<lceil>v * 2 ^ 80\<rceil>" by (rule le_of_int_ceiling)
  then show ?thesis by (simp add: up_def pos_le_divide_eq)
qed

lemma tsum_linear: "tsum n q j t = t * tsum n q j 1"
proof (induction n arbitrary: j t)
  case 0
  show ?case by simp
next
  case (Suc n)
  have "tsum (Suc n) q j t = t + tsum n q (j + 2) (- (t * q) / ((j + 1) * (j + 2)))"
    by simp
  also have "\<dots> = t + (- (t * q) / ((j + 1) * (j + 2))) * tsum n q (j + 2) 1"
    by (simp only: Suc.IH [of "j + 2" "- (t * q) / ((j + 1) * (j + 2))"])
  also have "\<dots> = t * (1 + (- (1 * q) / ((j + 1) * (j + 2))) * tsum n q (j + 2) 1)"
    by (simp add: algebra_simps)
  also have "\<dots> = t * tsum (Suc n) q j 1"
    by (simp only: tsum.simps Suc.IH [of "j + 2" "- (1 * q) / ((j + 1) * (j + 2))"])
  finally show ?case .
qed

lemma tsum_Suc_1:
  "tsum (Suc n) q j 1 = 1 - q / ((j + 1) * (j + 2)) * tsum n q (j + 2) 1"
proof -
  have "tsum (Suc n) q j 1 = 1 + tsum n q (j + 2) (- (1 * q) / ((j + 1) * (j + 2)))"
    by (simp only: tsum.simps)
  also have "\<dots> = 1 + (- (1 * q) / ((j + 1) * (j + 2))) * tsum n q (j + 2) 1"
    by (simp only: tsum_linear [of n q "j + 2" "- (1 * q) / ((j + 1) * (j + 2))"])
  finally show ?thesis by simp
qed

lemma horner_bounds:
  assumes "0 \<le> q" "0 \<le> j"
  shows "hlo n q j \<le> tsum n q j 1 \<and> tsum n q j 1 \<le> hhi n q j"
  using assms(2)
proof (induction n arbitrary: j)
  case 0
  show ?case by simp
next
  case (Suc n)
  define r where "r = q / ((j + 1) * (j + 2))"
  have r: "0 \<le> r"
    using assms(1) Suc.prems by (simp add: r_def)
  have "0 \<le> j + 2" using Suc.prems by simp
  from Suc.IH [OF this] have ih: "hlo n q (j + 2) \<le> tsum n q (j + 2) 1"
    "tsum n q (j + 2) 1 \<le> hhi n q (j + 2)" by simp_all
  have t: "tsum (Suc n) q j 1 = 1 - r * tsum n q (j + 2) 1"
    unfolding r_def by (rule tsum_Suc_1)
  have "hlo (Suc n) q j \<le> 1 - r * hhi n q (j + 2)"
    unfolding hlo.simps r_def by (rule down_le)
  also have "\<dots> \<le> 1 - r * tsum n q (j + 2) 1"
    using mult_left_mono [OF ih(2) r] by simp
  finally have lo: "hlo (Suc n) q j \<le> tsum (Suc n) q j 1"
    by (simp only: t)
  have "1 - r * tsum n q (j + 2) 1 \<le> 1 - r * hlo n q (j + 2)"
    using mult_left_mono [OF ih(1) r] by simp
  also have "\<dots> \<le> hhi (Suc n) q j"
    unfolding hhi.simps r_def by (rule up_ge)
  finally have hi: "tsum (Suc n) q j 1 \<le> hhi (Suc n) q j"
    by (simp only: t)
  from lo hi show ?case by simp
qed

lemma remainder_le:
  fixes x b :: real
  assumes "0 \<le> x" "x \<le> b"
  shows "\<bar>x\<bar> ^ m / fact m \<le> b ^ m / fact m"
proof -
  have "\<bar>x\<bar> ^ m \<le> b ^ m"
    using assms by (intro power_mono) simp_all
  then show ?thesis
    by (simp add: divide_right_mono)
qed

lemma sin_enclosure:
  assumes "0 \<le> x" "x \<le> b"
  shows "x * hlo n (x * x) 1 - b ^ (2 * n + 1) / fact (2 * n + 1) \<le> sin x"
    and "sin x \<le> x * hhi n (x * x) 1 + b ^ (2 * n + 1) / fact (2 * n + 1)"
proof -
  have q: "0 \<le> x * x" by simp
  from horner_bounds [OF q, of 1 n]
  have h: "hlo n (x * x) 1 \<le> tsum n (x * x) 1 1" "tsum n (x * x) 1 1 \<le> hhi n (x * x) 1"
    by simp_all
  have t: "tsum n (x * x) 1 x = x * tsum n (x * x) 1 1"
    by (rule tsum_linear)
  have lo: "x * hlo n (x * x) 1 \<le> tsum n (x * x) 1 x"
    unfolding t using h(1) assms(1) by (rule mult_left_mono)
  have hi: "tsum n (x * x) 1 x \<le> x * hhi n (x * x) 1"
    unfolding t using h(2) assms(1) by (rule mult_left_mono)
  have "\<bar>sin x - tsum n (x * x) 1 x\<bar> \<le> \<bar>x\<bar> ^ (2 * n + 1) / fact (2 * n + 1)"
    by (rule sin_taylor)
  also have "\<dots> \<le> b ^ (2 * n + 1) / fact (2 * n + 1)"
    using assms by (rule remainder_le)
  finally have e: "\<bar>sin x - tsum n (x * x) 1 x\<bar> \<le> b ^ (2 * n + 1) / fact (2 * n + 1)" .
  from e lo show "x * hlo n (x * x) 1 - b ^ (2 * n + 1) / fact (2 * n + 1) \<le> sin x"
    by linarith
  from e hi show "sin x \<le> x * hhi n (x * x) 1 + b ^ (2 * n + 1) / fact (2 * n + 1)"
    by linarith
qed

lemma cos_enclosure:
  assumes "0 \<le> x" "x \<le> b"
  shows "hlo n (x * x) 0 - b ^ (2 * n) / fact (2 * n) \<le> cos x"
    and "cos x \<le> hhi n (x * x) 0 + b ^ (2 * n) / fact (2 * n)"
proof -
  have q: "0 \<le> x * x" by simp
  from horner_bounds [OF q, of 0 n]
  have h: "hlo n (x * x) 0 \<le> tsum n (x * x) 0 1" "tsum n (x * x) 0 1 \<le> hhi n (x * x) 0"
    by simp_all
  have "\<bar>cos x - tsum n (x * x) 0 1\<bar> \<le> \<bar>x\<bar> ^ (2 * n) / fact (2 * n)"
    by (rule cos_taylor)
  also have "\<dots> \<le> b ^ (2 * n) / fact (2 * n)"
    using assms by (rule remainder_le)
  finally have e: "\<bar>cos x - tsum n (x * x) 0 1\<bar> \<le> b ^ (2 * n) / fact (2 * n)" .
  from e h(1) show "hlo n (x * x) 0 - b ^ (2 * n) / fact (2 * n) \<le> cos x"
    by linarith
  from e h(2) show "cos x \<le> hhi n (x * x) 0 + b ^ (2 * n) / fact (2 * n)"
    by linarith
qed

lemma hlo_numeral:
  "hlo (numeral k) q j = down (1 - q / ((j + 1) * (j + 2)) * hhi (pred_numeral k) q (j + 2))"
  by (simp add: numeral_eq_Suc)

lemma hhi_numeral:
  "hhi (numeral k) q j = up (1 - q / ((j + 1) * (j + 2)) * hlo (pred_numeral k) q (j + 2))"
  by (simp add: numeral_eq_Suc)

lemma hlo_1: "hlo 1 q j = down (1 - q / ((j + 1) * (j + 2)) * 0)"
  using hlo.simps(2) [of 0 q j] by simp

lemma hhi_1: "hhi 1 q j = up (1 - q / ((j + 1) * (j + 2)) * 0)"
  using hhi.simps(2) [of 0 q j] by simp

subsection \<open>Square roots and arc sines between two bounds\<close>

lemma sqrt_lower:
  assumes "lo * lo \<le> a"
  shows "lo \<le> sqrt a"
  using assms by (intro real_le_rsqrt) (simp add: power2_eq_square)

lemma sqrt_upper:
  assumes "0 \<le> hi" "a \<le> hi * hi"
  shows "sqrt a \<le> hi"
  using assms by (intro real_le_lsqrt) (simp_all add: power2_eq_square)

lemma arcsin_enclosure:
  assumes "0 \<le> lo" "lo \<le> hi" "hi \<le> b" "b \<le> 1"
    and "lo * hhi n (lo * lo) 1 + b ^ (2 * n + 1) / fact (2 * n + 1) \<le> a"
    and "a \<le> hi * hlo n (hi * hi) 1 - b ^ (2 * n + 1) / fact (2 * n + 1)"
  shows "lo \<le> arcsin a" "arcsin a \<le> hi"
proof -
  have lob: "lo \<le> b" and hi0: "0 \<le> hi" using assms(1-3) by simp_all
  have one: "1 \<le> pi / 2" using pi_ge_two by simp
  have slo: "sin lo \<le> a"
    using sin_enclosure(2) [OF assms(1) lob, of n] assms(5) by linarith
  have shi: "a \<le> sin hi"
    using sin_enclosure(1) [OF hi0 assms(3), of n] assms(6) by linarith
  have "0 \<le> sin lo"
    using assms(1-4) one by (intro sin_ge_zero) linarith+
  with slo have a0: "- 1 \<le> a" by linarith
  have a1: "a \<le> 1" using shi sin_le_one [of hi] by linarith
  have rlo: "- pi / 2 \<le> lo" "lo \<le> pi / 2" using assms(1-4) one by linarith+
  have rhi: "- pi / 2 \<le> hi" "hi \<le> pi / 2" using assms(1-4) one by linarith+
  show "lo \<le> arcsin a"
    using le_arcsin_iff [OF a0 a1 rlo] slo by simp
  show "arcsin a \<le> hi"
    using arcsin_le_iff [OF a0 a1 rhi] shi by simp
qed

section \<open>Properties of the series builder\<close>

subsection \<open>The distance and elevation loop\<close>

lemma series_loop_0: "series_loop ps 0 = ([Fin 0], [elev0 ps])"
  by (simp add: series_loop_def)

lemma series_loop_1: "series_loop ps (Suc 0) = ([Fin 0], [elev0 ps])"
  by (simp add: series_loop_def)

lemma series_loop_Suc:
  "1 \<le> n \<Longrightarrow> series_loop ps (Suc n) = series_step ps n (series_loop ps n)"
  by (simp add: series_loop_def)

lemma length_series_step:
  "length (fst (series_step ps i st)) = Suc (length (fst st))"
  "length (snd (series_step ps i st)) = Suc (length (snd st))"
  by (simp_all add: series_step_def Let_def)

lemma length_series_loop:
  "length (fst (series_loop ps n)) = max 1 n \<and> length (snd (series_loop ps n)) = max 1 n"
proof (induction n)
  case 0
  show ?case by (simp add: series_loop_0)
next
  case (Suc n)
  show ?case
  proof (cases n)
    case 0
    then show ?thesis by (simp add: series_loop_1)
  next
    case (Suc m)
    then have "1 \<le> n" by simp
    with Suc.IH show ?thesis
      by (simp add: series_loop_Suc length_series_step)
  qed
qed

lemma length_fst_series_loop: "length (fst (series_loop ps n)) = max 1 n"
  by (simp add: length_series_loop)

lemma length_snd_series_loop: "length (snd (series_loop ps n)) = max 1 n"
  by (simp add: length_series_loop)

text \<open>The loop only appends: earlier entries stay as they are.\<close>

lemma series_loop_Suc_nth:
  assumes "1 \<le> n" "j < n"
  shows "fst (series_loop ps (Suc n)) ! j = fst (series_loop ps n) ! j"
    and "snd (series_loop ps (Suc n)) ! j = snd (series_loop ps n) ! j"
  using assms
  by (simp_all add: series_loop_Suc series_step_def Let_def nth_append
      length_fst_series_loop length_snd_series_loop)

lemma series_loop_Suc_last:
  assumes "1 \<le> n"
  shows "fst (series_loop ps (Suc n)) ! n =
           add64 (fst (series_loop ps n) ! (n - 1)) (haversineMiles (ps ! (n - 1)) (ps ! n))"
    and "snd (series_loop ps (Suc n)) ! n =
           mul64 (if isFinite (ele (ps ! n)) then ele (ps ! n)
                   else div64 (snd (series_loop ps n) ! (n - 1)) ft_per_m) ft_per_m"
  using assms
  by (simp_all add: series_loop_Suc series_step_def Let_def nth_append num_at_def
      length_fst_series_loop length_snd_series_loop nat_diff_distrib)

lemma series_loop_nth_0:
  "fst (series_loop ps n) ! 0 = Fin 0" "snd (series_loop ps n) ! 0 = elev0 ps"
proof (induction n)
  case 0
  {
    case 1 show ?case by (simp add: series_loop_0)
  next
    case 2 show ?case by (simp add: series_loop_0)
  }
next
  case (Suc n)
  {
    case 1 
    show ?case
    proof (cases "n = 0")
      case True then show ?thesis by (simp add: series_loop_1)
    next
      case False then show ?thesis using Suc(1) by (simp add: series_loop_Suc_nth)
    qed
  next
    case 2
    show ?case
    proof (cases "n = 0")
      case True then show ?thesis by (simp add: series_loop_1)
    next
      case False then show ?thesis using Suc(2) by (simp add: series_loop_Suc_nth)
    qed
  }
qed

lemma distMi_nth:
  "1 \<le> i \<Longrightarrow> i < n \<Longrightarrow>
   fst (series_loop ps n) ! i =
     add64 (fst (series_loop ps n) ! (i - 1)) (haversineMiles (ps ! (i - 1)) (ps ! i))"
proof (induction n)
  case 0
  then show ?case by simp
next
  case (Suc n)
  show ?case
  proof (cases "i = n")
    case True
    with Suc.prems show ?thesis
      by (simp add: series_loop_Suc_last series_loop_Suc_nth)
  next
    case False
    with Suc.prems have "i < n" "i - 1 < n" "1 \<le> n" by simp_all
    with Suc show ?thesis by (simp add: series_loop_Suc_nth)
  qed
qed

lemma elevFt_nth:
  "1 \<le> i \<Longrightarrow> i < n \<Longrightarrow>
   snd (series_loop ps n) ! i =
     mul64 (if isFinite (ele (ps ! i)) then ele (ps ! i)
             else div64 (snd (series_loop ps n) ! (i - 1)) ft_per_m) ft_per_m"
proof (induction n)
  case 0
  then show ?case by simp
next
  case (Suc n)
  show ?case
  proof (cases "i = n")
    case True
    with Suc.prems show ?thesis
      by (simp add: series_loop_Suc_last series_loop_Suc_nth)
  next
    case False
    with Suc.prems have "i < n" "i - 1 < n" "1 \<le> n" by simp_all
    with Suc show ?thesis by (simp add: series_loop_Suc_nth)
  qed
qed

lemma series_loop_Suc_Suc:
  "series_loop ps (Suc (Suc n)) = series_step ps (Suc n) (series_loop ps (Suc n))"
  by (simp add: series_loop_Suc)

text \<open>A finite reading is converted as it is, at every index.\<close>

lemma elevFt_finite_reading:
  assumes "i < length ps" "ele (ps ! i) = Fin v"
  shows "snd (series_loop ps (length ps)) ! i = mul64 (Fin v) ft_per_m"
proof (cases "i = 0")
  case True
  with assms show ?thesis
    by (cases ps) (simp_all add: series_loop_nth_0 elev0_def)
next
  case False
  with assms show ?thesis
    by (simp add: elevFt_nth)
qed

subsection \<open>The parts of a built series\<close>

lemma fst_foldl_collect:
  "fst (foldl collect_trk st trks) = fst st @ map parse_trkpt (concat trks)"
  by (induction trks arbitrary: st) (simp_all add: collect_trk_def Let_def)

lemma pts_collect_trks: "fst (collect_trks trks) = map parse_trkpt (concat trks)"
  by (simp add: collect_trks_def fst_foldl_collect)

lemma built_series:
  assumes "parseGPXToSeries trks = Inr s"
  shows "pts s = map parse_trkpt (concat trks)"
    and "distMi s = fst (series_loop (pts s) (length (pts s)))"
    and "elevFt s = snd (series_loop (pts s) (length (pts s)))"
    and "stageScatter s = stage_markers (distMi s) (elevFt s) (snd (collect_trks trks))"
  using assms
  by (auto simp add: parseGPXToSeries_def Let_def pts_collect_trks split: if_splits)

subsection \<open>Running the builder on sample documents\<close>

lemma toRad_0: "toRad (Fin 0) = Fin 0"
  by (simp add: toRad_def Math_PI_def)

lemma two_R_km: "mul64 (Fin 2) R_km = Fin 12742"
proof -
  have "fl64 12742 = Fin 12742"
    by (rule fl64_representable [where n = 12742 and e = 0]) (simp_all add: max_double_def)
  then show ?thesis
    by (simp add: R_km_def)
qed

text \<open>Two points at latitude 0 and the same longitude are at distance 0.\<close>

lemma haversineMiles_same:
  assumes "lat a = Fin 0" "lon a = Fin v" "lat b = Fin 0" "lon b = Fin v"
  shows "haversineMiles a b = Fin 0"
proof -
  have "hav_A a b = Fin 0"
    using assms by (simp add: hav_A_def Let_def sub64_def toRad_0 js_sq_def)
  then show ?thesis
    by (simp add: haversineMiles_def Let_def two_R_km mi_per_km_def)
qed

text \<open>Conversions of the sample readings to feet and back.\<close>

lemma to_feet_0: "mul64 (Fin 0) ft_per_m = Fin 0"
  using max_double_nonneg by (simp add: ft_per_m_def fl64_def)

lemma to_feet_1: "mul64 (Fin 1) ft_per_m = Fin c64"
proof -
  have "fl64 c64 = Fin c64"
    by (rule fl64_representable [where n = 7387794900731109 and e = "- 51"])
      (simp_all add: c64_def p2_neg_numeral max_double_def)
  then show ?thesis by (simp add: ft_per_m_def)
qed

lemma to_feet_2: "mul64 (Fin 2) ft_per_m = Fin (2 * c64)"
proof -
  have "fl64 (2 * c64) = Fin (2 * c64)"
    by (rule fl64_representable [where n = 7387794900731109 and e = "- 50"])
      (simp_all add: c64_def p2_neg_numeral max_double_def)
  then show ?thesis by (simp add: ft_per_m_def)
qed

lemma to_feet_4: "mul64 (Fin 4) ft_per_m = Fin (4 * c64)"
proof -
  have "fl64 (4 * c64) = Fin (4 * c64)"
    by (rule fl64_representable [where n = 7387794900731109 and e = "- 49"])
      (simp_all add: c64_def p2_neg_numeral max_double_def)
  then show ?thesis by (simp add: ft_per_m_def)
qed

text \<open>
  The reading 100 is a case where both operations round: \<open>100 * 3.28084\<close> is the double
  \<open>5771714766196179 / 2^44\<close> (printed \<^verbatim>\<open>328.084\<close>), and dividing that double by the
  factor gives 100 again.
\<close>

lemma to_feet_100: "mul64 (Fin 100) ft_per_m = Fin (5771714766196179 / 17592186044416)"
proof -
  have e: "ulp_exp (100 * c64) = max (8 - 52) (- 1074)"
    by (rule ulp_exp_eq) (simp_all add: c64_def p2_numeral)
  have "round64 (100 * c64) = 5771714766196179 / 17592186044416"
  proof (rule round64_nearest [where n = 5771714766196179 and e = "- 44"])
    show "5771714766196179 / 17592186044416 = of_int 5771714766196179 * p2 (- 44)"
      by (simp add: p2_neg_numeral)
    show "ulp_exp (100 * c64) \<le> - 44" using e by simp
    show "\<bar>5771714766196179 / 17592186044416 - 100 * c64\<bar> < ulp (100 * c64) / 2"
      using e by (simp add: ulp_def p2_neg_numeral c64_def abs_less_iff)
  qed
  moreover have "\<bar>5771714766196179 / 17592186044416 :: real\<bar> \<le> max_double"
    by (simp add: max_double_def)
  ultimately have "fl64 (100 * c64) = Fin (5771714766196179 / 17592186044416)"
    by (simp add: fl64_Fin)
  then show ?thesis by (simp add: ft_per_m_def)
qed

lemma to_metres_100: "div64 (Fin (5771714766196179 / 17592186044416)) ft_per_m = Fin 100"
proof -
  define q where "q = 5771714766196179 / 17592186044416 / c64"
  have e: "ulp_exp q = max (6 - 52) (- 1074)"
    by (rule ulp_exp_eq) (simp_all add: q_def c64_def p2_numeral)
  have "round64 q = 100"
  proof (rule round64_nearest [where n = 100 and e = 0])
    show "(100 :: real) = of_int 100 * p2 0" by simp
    show "ulp_exp q \<le> 0" using e by simp
    show "\<bar>100 - q\<bar> < ulp q / 2"
      using e by (simp add: ulp_def p2_neg_numeral q_def c64_def abs_less_iff)
  qed
  moreover have "\<bar>100 :: real\<bar> \<le> max_double"
    by (simp add: max_double_def)
  ultimately have "fl64 q = Fin 100"
    by (simp add: fl64_Fin)
  then show ?thesis by (simp add: ft_per_m_def q_def)
qed

lemma to_feet_nonfinite: "mul64 NaN ft_per_m = NaN" "mul64 PInf ft_per_m = PInf"
  by (simp_all add: ft_per_m_def signed_inf_def)

lemmas run_builder =
  parseGPXToSeries_def collect_trks_def collect_trk_def series_loop_Suc_Suc series_loop_1
  series_loop_0 series_step_def haversineMiles_same elev0_def num_at_def elem_at_def
  stage_markers_def stage_indices_def mk_marker_def parse_trkpt_def Let_def
  origin_trkpt_def origin_point_def upt_rec
  to_feet_0 to_feet_1 to_feet_2 to_feet_4 to_feet_100 to_metres_100 to_feet_nonfinite

subsection \<open>Lengths of a built series (claim C4)\<close>

text \<open>
  Claim C4, as stated, fails: a document with one \<^verbatim>\<open><trk>\<close> that holds no point is
  built without an error. The series has no point, while \<open>distMi\<close> and \<open>elevFt\<close> have
  one entry each (the guard \<^verbatim>\<open>pts[0]?.ele ?? 0\<close> supplies the elevation).
\<close>

theorem empty_track_builds:
  "parseGPXToSeries [[]] =
     Inr \<lparr>pts = [], distMi = [Fin 0], elevFt = [Fin 0], totalMi = Fin 0, stageScatter = []\<rparr>"
  by (simp add: run_builder)

text \<open>
  Claim C4, amended: the build fails exactly when the document has no \<^verbatim>\<open><trk>\<close>
  element. Every built series has \<open>elevFt\<close> and \<open>distMi\<close> of the same length, at
  least 1, and when the series has a point this is also the number of points.
\<close>

theorem series_lengths:
  "(parseGPXToSeries trks = Inl NoTrk \<longleftrightarrow> trks = []) \<and>
   (\<forall>s. parseGPXToSeries trks = Inr s \<longrightarrow>
      length (elevFt s) = length (distMi s) \<and> 1 \<le> length (distMi s) \<and>
      (pts s \<noteq> [] \<longrightarrow> length (distMi s) = length (pts s)))"
proof (intro conjI allI impI)
  show "parseGPXToSeries trks = Inl NoTrk \<longleftrightarrow> trks = []"
    by (simp add: parseGPXToSeries_def Let_def)
next
  fix s
  assume built: "parseGPXToSeries trks = Inr s"
  note b = built_series [OF built]
  show "length (elevFt s) = length (distMi s)"
    by (subst b(2), subst b(3)) (simp add: length_fst_series_loop length_snd_series_loop)
  show "1 \<le> length (distMi s)"
    by (subst b(2)) (simp add: length_fst_series_loop)
  show "length (distMi s) = length (pts s)" if "pts s \<noteq> []"
  proof -
    from that have "1 \<le> length (pts s)"
      by (cases "pts s") simp_all
    then show ?thesis
      by (subst b(2)) (simp add: length_fst_series_loop)
  qed
qed

text \<open>Claim C4, amended, at a document with one track of one point.\<close>

theorem series_lengths_witness:
  "parseGPXToSeries [[origin_trkpt (Some (Fin 100))]] \<noteq> Inl NoTrk \<and>
   parseGPXToSeries [[origin_trkpt (Some (Fin 100))]] =
     Inr \<lparr>pts = [origin_point (Fin 100)], distMi = [Fin 0], elevFt = [Fin (5771714766196179 / 17592186044416)],
          totalMi = Fin 0, stageScatter = []\<rparr> \<and>
   length [Fin (5771714766196179 / 17592186044416)] = length [Fin 0] \<and>
   length [Fin 0] = length [origin_point (Fin 100)]"
  using series_lengths [of "[[origin_trkpt (Some (Fin 100))]]"]
  by (simp add: run_builder)

subsection \<open>Elevation of the first point (claim C5)\<close>

text \<open>
  Claim C5: a non-finite reading at point 0 should count as 0. The script does not do
  so: \<^verbatim>\<open>pts[0]?.ele ?? 0\<close> replaces only a missing point, so a reading NaN gives
  \<open>elevFt[0] = NaN\<close> and a reading \<open>Infinity\<close> gives \<open>elevFt[0] = Infinity\<close>.
\<close>

theorem first_point_not_repaired:
  "parseGPXToSeries [[origin_trkpt (Some NaN)]] =
     Inr \<lparr>pts = [origin_point NaN], distMi = [Fin 0], elevFt = [NaN], totalMi = Fin 0,
          stageScatter = []\<rparr> \<and>
   parseGPXToSeries [[origin_trkpt (Some PInf)]] =
     Inr \<lparr>pts = [origin_point PInf], distMi = [Fin 0], elevFt = [PInf], totalMi = Fin 0,
          stageScatter = []\<rparr>"
  by (simp add: run_builder)

subsection \<open>A point without an elevation element (claim C7)\<close>

text \<open>
  Claim C7, as stated, fails: in a track of two points whose first reading is 100, a
  second point without an \<^verbatim>\<open><ele>\<close> element gets the elevation 0, while a second point
  with a non-numeric reading gets the elevation of the first point.
\<close>

theorem missing_ele_not_carried:
  "parseGPXToSeries [[origin_trkpt (Some (Fin 100)), origin_trkpt None]] =
     Inr \<lparr>pts = [origin_point (Fin 100), origin_point (Fin 0)],
          distMi = [Fin 0, Fin 0], elevFt = [Fin (5771714766196179 / 17592186044416), Fin 0], totalMi = Fin 0,
          stageScatter = [\<lparr>x_mi = Some (Fin 0), y_ft = Some (Fin 0), isFinal = True\<rparr>]\<rparr> \<and>
   parseGPXToSeries [[origin_trkpt (Some (Fin 100)), origin_trkpt (Some NaN)]] =
     Inr \<lparr>pts = [origin_point (Fin 100), origin_point NaN],
          distMi = [Fin 0, Fin 0], elevFt = [Fin (5771714766196179 / 17592186044416), Fin (5771714766196179 / 17592186044416)], totalMi = Fin 0,
          stageScatter = [\<lparr>x_mi = Some (Fin 0), y_ft = Some (Fin (5771714766196179 / 17592186044416)), isFinal = True\<rparr>]\<rparr>"
  by (simp add: run_builder)

text \<open>
  Claim C7, amended: a point without an \<^verbatim>\<open><ele>\<close> element is kept; the parser gives it
  the reading 0, and its entry of \<open>elevFt\<close> is 0 at every index.
\<close>

theorem missing_ele_reads_zero:
  assumes "parseGPXToSeries trks = Inr s"
    and "i < length (concat trks)"
    and "ele_elem (concat trks ! i) = None"
  shows "i < length (pts s) \<and> ele (pts s ! i) = Fin 0 \<and> elevFt s ! i = Fin 0"
proof -
  note b = built_series [OF assms(1)]
  have len: "i < length (pts s)"
    using assms(2) by (simp add: b(1))
  have rd: "ele (pts s ! i) = Fin 0"
    using assms(2,3) by (simp add: b(1) parse_trkpt_def)
  have "elevFt s ! i = mul64 (Fin 0) ft_per_m"
    by (subst b(3)) (rule elevFt_finite_reading [OF len rd])
  with len rd show ?thesis by (simp add: to_feet_0)
qed

lemma missing_ele_sample:
  "parseGPXToSeries [[origin_trkpt (Some (Fin 100)), origin_trkpt None]] =
     Inr \<lparr>pts = [origin_point (Fin 100), origin_point (Fin 0)],
          distMi = [Fin 0, Fin 0], elevFt = [Fin (5771714766196179 / 17592186044416), Fin 0], totalMi = Fin 0,
          stageScatter = [\<lparr>x_mi = Some (Fin 0), y_ft = Some (Fin 0), isFinal = True\<rparr>]\<rparr>"
  by (simp add: run_builder)

text \<open>Claim C7, amended, at the second point of the two-point track above.\<close>

theorem missing_ele_reads_zero_witness:
  "parseGPXToSeries [[origin_trkpt (Some (Fin 100)), origin_trkpt None]] =
     Inr \<lparr>pts = [origin_point (Fin 100), origin_point (Fin 0)],
          distMi = [Fin 0, Fin 0], elevFt = [Fin (5771714766196179 / 17592186044416), Fin 0], totalMi = Fin 0,
          stageScatter = [\<lparr>x_mi = Some (Fin 0), y_ft = Some (Fin 0), isFinal = True\<rparr>]\<rparr> \<and>
   1 < length (concat [[origin_trkpt (Some (Fin 100)), origin_trkpt None]]) \<and>
   ele_elem (concat [[origin_trkpt (Some (Fin 100)), origin_trkpt None]] ! 1) = None \<and>
   [Fin (5771714766196179 / 17592186044416), Fin 0] ! 1 = Fin 0"
proof -
  have i: "1 < length (concat [[origin_trkpt (Some (Fin 100)), origin_trkpt None]])"
    by simp
  have m: "ele_elem (concat [[origin_trkpt (Some (Fin 100)), origin_trkpt None]] ! 1) = None"
    by (simp add: origin_trkpt_def)
  from missing_ele_reads_zero [OF missing_ele_sample i m] missing_ele_sample i m
  show ?thesis by simp
qed

subsection \<open>Carry-forward of a non-finite reading (claim C6)\<close>

text \<open>
  Claim C6: when the reading at an index \<open>k > 0\<close> is not finite and the reading before
  it is a finite double, the entry \<open>k\<close> of \<open>elevFt\<close> is the entry \<open>k - 1\<close> divided by
  3.28084 and multiplied by it again, in double arithmetic, and the two entries are the
  same number (never NaN, so \<^verbatim>\<open>==\<close> holds).
\<close>

theorem carry_forward_equal:
  assumes "parseGPXToSeries trks = Inr s"
    and "0 < k" "k < length (pts s)"
    and "\<not> isFinite (ele (pts s ! k))"
    and "ele (pts s ! (k - 1)) = Fin r" "is_double r"
  shows "elevFt s ! k = mul64 (div64 (elevFt s ! (k - 1)) ft_per_m) ft_per_m \<and>
         elevFt s ! k = elevFt s ! (k - 1) \<and> elevFt s ! k \<noteq> NaN"
proof -
  note b = built_series [OF assms(1)]
  define ef where "ef = snd (series_loop (pts s) (length (pts s)))"
  have ef: "elevFt s = ef"
    unfolding ef_def by (rule b(3))
  have prev: "ef ! (k - 1) = mul64 (Fin r) ft_per_m"
    unfolding ef_def using assms(3,5) by (intro elevFt_finite_reading) simp_all
  have step: "ef ! k = mul64 (div64 (ef ! (k - 1)) ft_per_m) ft_per_m"
    unfolding ef_def using assms(2,3,4) by (simp add: elevFt_nth)
  have same: "ef ! k = ef ! (k - 1)"
    unfolding step prev ft_per_m_def using assms(6) by (rule reconvert_same)
  have "ef ! (k - 1) \<noteq> NaN"
    unfolding prev ft_per_m_def by (rule mul64_not_NaN)
  with step same show ?thesis
    by (simp add: ef)
qed

lemma carry_forward_sample:
  "parseGPXToSeries [[origin_trkpt (Some (Fin 100)), origin_trkpt (Some NaN)]] =
     Inr \<lparr>pts = [origin_point (Fin 100), origin_point NaN],
          distMi = [Fin 0, Fin 0],
          elevFt = [Fin (5771714766196179 / 17592186044416),
                    Fin (5771714766196179 / 17592186044416)],
          totalMi = Fin 0,
          stageScatter = [\<lparr>x_mi = Some (Fin 0),
                           y_ft = Some (Fin (5771714766196179 / 17592186044416)),
                           isFinal = True\<rparr>]\<rparr>"
  by (simp add: run_builder)

lemma is_double_100: "is_double 100"
proof -
  have "round64 100 = 100"
    by (rule round64_representable [where n = 100 and e = 0]) simp_all
  then show ?thesis
    by (simp add: is_double_def max_double_def)
qed

text \<open>
  Claim C6 at a track of two points with the readings 100 and NaN: both entries of
  \<open>elevFt\<close> are the double \<open>5771714766196179 / 2^44\<close>.
\<close>

theorem carry_forward_equal_witness:
  "parseGPXToSeries [[origin_trkpt (Some (Fin 100)), origin_trkpt (Some NaN)]] =
     Inr \<lparr>pts = [origin_point (Fin 100), origin_point NaN],
          distMi = [Fin 0, Fin 0],
          elevFt = [Fin (5771714766196179 / 17592186044416),
                    Fin (5771714766196179 / 17592186044416)],
          totalMi = Fin 0,
          stageScatter = [\<lparr>x_mi = Some (Fin 0),
                           y_ft = Some (Fin (5771714766196179 / 17592186044416)),
                           isFinal = True\<rparr>]\<rparr> \<and>
   (0 :: nat) < 1 \<and> 1 < length [origin_point (Fin 100), origin_point NaN] \<and>
   \<not> isFinite (ele ([origin_point (Fin 100), origin_point NaN] ! 1)) \<and>
   ele ([origin_point (Fin 100), origin_point NaN] ! (1 - 1)) = Fin 100 \<and> is_double 100 \<and>
   [Fin (5771714766196179 / 17592186044416), Fin (5771714766196179 / 17592186044416)] ! 1 =
   [Fin (5771714766196179 / 17592186044416), Fin (5771714766196179 / 17592186044416)] ! (1 - 1)"
  using carry_forward_equal [OF carry_forward_sample, of 1 100]
    carry_forward_sample is_double_100
  by (simp add: origin_point_def)

subsection \<open>The final stage marker (claim C2)\<close>

text \<open>
  Claim C2: exactly one marker, the last, should be final. The script compares the
  position \<open>s\<close> of a marker among the kept indices with the length of the unfiltered
  list, so once an index is dropped no marker is final. Here the first track has one
  point (its end index 0 is dropped) and the second has two: the only marker, at
  index 2, is not final.
\<close>

theorem no_final_marker_after_one_point_track:
  "parseGPXToSeries
     [[origin_trkpt (Some (Fin 0))],
      [origin_trkpt (Some (Fin 1)), origin_trkpt (Some (Fin 2))]] =
     Inr \<lparr>pts = [origin_point (Fin 0), origin_point (Fin 1), origin_point (Fin 2)],
          distMi = [Fin 0, Fin 0, Fin 0], elevFt = [Fin 0, Fin c64, Fin (2 * c64)],
          totalMi = Fin 0,
          stageScatter = [\<lparr>x_mi = Some (Fin 0), y_ft = Some (Fin (2 * c64)), isFinal = False\<rparr>]\<rparr>"
  by (simp add: run_builder)

subsection \<open>Scenario B: tracks of 5, 4 and 3 points (claim C8)\<close>

lemma snd_collect_three:
  "snd (collect_trks [t1, t2, t3]) =
     [int (length t1) - 1, int (length t1 + length t2) - 1,
      int (length t1 + length t2 + length t3) - 1]"
  by (simp add: collect_trks_def collect_trk_def Let_def)

lemma scenario_B_markers:
  assumes "length t1 = 5" "length t2 = 4" "length t3 = 3"
    and "parseGPXToSeries [t1, t2, t3] = Inr s"
  shows "length (pts s) = 12 \<and>
    stageScatter s =
      [\<lparr>x_mi = Some (distMi s ! 4), y_ft = Some (elevFt s ! 4), isFinal = False\<rparr>,
       \<lparr>x_mi = Some (distMi s ! 8), y_ft = Some (elevFt s ! 8), isFinal = False\<rparr>,
       \<lparr>x_mi = Some (distMi s ! 11), y_ft = Some (elevFt s ! 11), isFinal = True\<rparr>]"
proof -
  note b = built_series [OF assms(4)]
  have n: "length (pts s) = 12"
    using assms(1-3) by (simp add: b(1))
  have ld: "length (distMi s) = 12"
    by (subst b(2)) (simp add: length_fst_series_loop n)
  have le: "length (elevFt s) = 12"
    by (subst b(3)) (simp add: length_snd_series_loop n)
  have ends: "snd (collect_trks [t1, t2, t3]) = [4, 8, 11]"
    using assms(1-3) by (simp add: snd_collect_three)
  have up: "[0..<3] = [0, 1, 2]"
    by (simp add: upt_rec)
  have "stageScatter s = stage_markers (distMi s) (elevFt s) [4, 8, 11]"
    using b(4) ends by simp
  also have "\<dots> =
      [\<lparr>x_mi = Some (distMi s ! 4), y_ft = Some (elevFt s ! 4), isFinal = False\<rparr>,
       \<lparr>x_mi = Some (distMi s ! 8), y_ft = Some (elevFt s ! 8), isFinal = False\<rparr>,
       \<lparr>x_mi = Some (distMi s ! 11), y_ft = Some (elevFt s ! 11), isFinal = True\<rparr>]"
    by (simp add: stage_markers_def stage_indices_def up mk_marker_def elem_at_def ld le)
  finally show ?thesis using n by simp
qed

text \<open>
  A sample for scenario B: twelve points whose elevation readings are 0, except 1, 2 and
  4 at the flat indices 4, 8 and 11, so that the elevation of a marker tells the index it
  sits at.
\<close>

lemma scenario_B_sample:
  "parseGPXToSeries
     [[origin_trkpt (Some (Fin 0)), origin_trkpt (Some (Fin 0)), origin_trkpt (Some (Fin 0)),
       origin_trkpt (Some (Fin 0)), origin_trkpt (Some (Fin 1))],
      [origin_trkpt (Some (Fin 0)), origin_trkpt (Some (Fin 0)), origin_trkpt (Some (Fin 0)),
       origin_trkpt (Some (Fin 2))],
      [origin_trkpt (Some (Fin 0)), origin_trkpt (Some (Fin 0)),
       origin_trkpt (Some (Fin 4))]] =
     Inr \<lparr>pts = [origin_point (Fin 0), origin_point (Fin 0), origin_point (Fin 0),
                 origin_point (Fin 0), origin_point (Fin 1), origin_point (Fin 0),
                 origin_point (Fin 0), origin_point (Fin 0), origin_point (Fin 2),
                 origin_point (Fin 0), origin_point (Fin 0), origin_point (Fin 4)],
          distMi = [Fin 0, Fin 0, Fin 0, Fin 0, Fin 0, Fin 0, Fin 0, Fin 0, Fin 0, Fin 0,
                    Fin 0, Fin 0],
          elevFt = [Fin 0, Fin 0, Fin 0, Fin 0, Fin c64, Fin 0, Fin 0, Fin 0, Fin (2 * c64),
                    Fin 0, Fin 0, Fin (4 * c64)],
          totalMi = Fin 0,
          stageScatter =
            [\<lparr>x_mi = Some (Fin 0), y_ft = Some (Fin c64), isFinal = False\<rparr>,
             \<lparr>x_mi = Some (Fin 0), y_ft = Some (Fin (2 * c64)), isFinal = False\<rparr>,
             \<lparr>x_mi = Some (Fin 0), y_ft = Some (Fin (4 * c64)), isFinal = True\<rparr>]\<rparr>"
  by (simp add: run_builder)

text \<open>
  Claim C8, as stated, fails: on the sample the builder emits three markers, not two, at
  the flat indices 4, 8 and 11, and the second marker is not final.
\<close>

theorem scenario_B_not_two_markers:
  "parseGPXToSeries
     [[origin_trkpt (Some (Fin 0)), origin_trkpt (Some (Fin 0)), origin_trkpt (Some (Fin 0)),
       origin_trkpt (Some (Fin 0)), origin_trkpt (Some (Fin 1))],
      [origin_trkpt (Some (Fin 0)), origin_trkpt (Some (Fin 0)), origin_trkpt (Some (Fin 0)),
       origin_trkpt (Some (Fin 2))],
      [origin_trkpt (Some (Fin 0)), origin_trkpt (Some (Fin 0)),
       origin_trkpt (Some (Fin 4))]] =
     Inr \<lparr>pts = [origin_point (Fin 0), origin_point (Fin 0), origin_point (Fin 0),
                 origin_point (Fin 0), origin_point (Fin 1), origin_point (Fin 0),
                 origin_point (Fin 0), origin_point (Fin 0), origin_point (Fin 2),
                 origin_point (Fin 0), origin_point (Fin 0), origin_point (Fin 4)],
          distMi = [Fin 0, Fin 0, Fin 0, Fin 0, Fin 0, Fin 0, Fin 0, Fin 0, Fin 0, Fin 0,
                    Fin 0, Fin 0],
          elevFt = [Fin 0, Fin 0, Fin 0, Fin 0, Fin c64, Fin 0, Fin 0, Fin 0, Fin (2 * c64),
                    Fin 0, Fin 0, Fin (4 * c64)],
          totalMi = Fin 0,
          stageScatter =
            [\<lparr>x_mi = Some (Fin 0), y_ft = Some (Fin c64), isFinal = False\<rparr>,
             \<lparr>x_mi = Some (Fin 0), y_ft = Some (Fin (2 * c64)), isFinal = False\<rparr>,
             \<lparr>x_mi = Some (Fin 0), y_ft = Some (Fin (4 * c64)), isFinal = True\<rparr>]\<rparr>"
  by (rule scenario_B_sample)

text \<open>
  Claim C8, amended: a document of three tracks with 5, 4 and 3 points gives a series
  of 12 points and exactly three stage markers, at the flat indices 4, 8 and 11; the
  third marker is the final one.
\<close>

theorem scenario_B_three_markers:
  assumes "length t1 = 5" "length t2 = 4" "length t3 = 3"
    and "parseGPXToSeries [t1, t2, t3] = Inr s"
  shows "length (pts s) = 12 \<and>
    stageScatter s =
      [\<lparr>x_mi = Some (distMi s ! 4), y_ft = Some (elevFt s ! 4), isFinal = False\<rparr>,
       \<lparr>x_mi = Some (distMi s ! 8), y_ft = Some (elevFt s ! 8), isFinal = False\<rparr>,
       \<lparr>x_mi = Some (distMi s ! 11), y_ft = Some (elevFt s ! 11), isFinal = True\<rparr>]"
  using assms by (rule scenario_B_markers)

text \<open>Claim C8, amended, at the sample.\<close>

theorem scenario_B_three_markers_witness:
  "length [origin_trkpt (Some (Fin 0)), origin_trkpt (Some (Fin 0)),
       origin_trkpt (Some (Fin 0)), origin_trkpt (Some (Fin 0)),
       origin_trkpt (Some (Fin 1))] = 5 \<and>
   length [origin_trkpt (Some (Fin 0)), origin_trkpt (Some (Fin 0)),
       origin_trkpt (Some (Fin 0)), origin_trkpt (Some (Fin 2))] = 4 \<and>
   length [origin_trkpt (Some (Fin 0)), origin_trkpt (Some (Fin 0)),
       origin_trkpt (Some (Fin 4))] = 3 \<and>
   map_sum id (\<lambda>s. (length (pts s), map y_ft (stageScatter s), map isFinal (stageScatter s)))
     (parseGPXToSeries
       [[origin_trkpt (Some (Fin 0)), origin_trkpt (Some (Fin 0)), origin_trkpt (Some (Fin 0)),
         origin_trkpt (Some (Fin 0)), origin_trkpt (Some (Fin 1))],
        [origin_trkpt (Some (Fin 0)), origin_trkpt (Some (Fin 0)), origin_trkpt (Some (Fin 0)),
         origin_trkpt (Some (Fin 2))],
        [origin_trkpt (Some (Fin 0)), origin_trkpt (Some (Fin 0)),
         origin_trkpt (Some (Fin 4))]]) =
     Inr (12, [Some (Fin c64), Some (Fin (2 * c64)), Some (Fin (4 * c64))],
          [False, False, True])"
  using scenario_B_three_markers [OF _ _ _ scenario_B_sample]
  by (simp add: scenario_B_sample)

section \<open>The distance series near the antipodes (claim C3)\<close>

text \<open>
  The distance between the points (\<open>south_lat\<close>, 0) and (\<open>north_lat\<close>, 180), operation by
  operation. The two latitudes are the doubles of the decimal texts.
\<close>

lemma sample_latitudes:
  "fl64 (- 64.56999996) = Fin south_lat" "fl64 64.57 = Fin north_lat"
proof -
  show "fl64 (- 64.56999996) = Fin south_lat"
    by (rule fl64_pin [where k = 6 and n = "- 4543709808737015"])
      (simp_all add: south_lat_def p2_numeral p2_neg_numeral p2_minus_1)
  show "fl64 64.57 = Fin north_lat"
    by (rule fl64_pin [where k = 6 and n = 4543709811551764])
      (simp_all add: north_lat_def p2_numeral p2_neg_numeral p2_minus_1)
qed

lemma sample_lat_difference:
  "sub64 (Fin north_lat) (Fin south_lat) = Fin (2271854905072195 / 17592186044416)"
proof -
  have "fl64 (north_lat + - south_lat) = Fin (2271854905072195 / 17592186044416)"
    unfolding north_lat_def south_lat_def
    by (rule fl64_pin_even [where k = 7 and n = 4543709810144390])
      (simp_all add: p2_numeral p2_neg_numeral p2_minus_1)
  then show ?thesis by (simp add: sub64_def)
qed

lemma sample_dLat:
  "toRad (Fin (2271854905072195 / 17592186044416)) =
      Fin (1268843143074977 / 562949953421312)"
proof -
  have m: "fl64 ((2271854905072195 / 17592186044416) * pi64) =
      Fin (7137242679796745 / 17592186044416)"
    by (rule fl64_pin [where k = 8 and n = 7137242679796745])
      (simp_all add: pi64_def p2_numeral p2_neg_numeral p2_minus_1)
  have d: "fl64 ((7137242679796745 / 17592186044416) / 180) =
      Fin (1268843143074977 / 562949953421312)"
    by (rule fl64_pin [where k = 1 and n = 5075372572299908])
      (simp_all add: p2_numeral p2_neg_numeral p2_minus_1)
  show ?thesis
    using m d by (simp add: toRad_def Math_PI_def)
qed

lemma sample_half_dLat:
  "div64 (Fin (1268843143074977 / 562949953421312)) (Fin 2) =
      Fin (1268843143074977 / 1125899906842624)"
proof -
  have "fl64 ((1268843143074977 / 562949953421312) / 2) =
      Fin (1268843143074977 / 1125899906842624)"
    by (rule fl64_pin [where k = 0 and n = 5075372572299908])
      (simp_all add: p2_numeral p2_neg_numeral p2_minus_1)
  then show ?thesis by simp
qed

lemma sample_sin_dLat:
  "Math_sin (Fin (1268843143074977 / 1125899906842624)) =
      Fin (4067248466994637 / 4503599627370496)"
proof -
  let ?x = "1268843143074977 / 1125899906842624 :: real"
  let ?r = "(5 / 4) ^ (2 * 10 + 1) / fact (2 * 10 + 1) :: real"
  have lo: "32537987735957095 / 36028797018963968 \<le> ?x * hlo 10 (?x * ?x) 1 - ?r"
    by (simp add: hlo_numeral hhi_numeral hlo_1 hhi_1 down_def up_def fact_numeral power_divide)
  have hi: "?x * hhi 10 (?x * ?x) 1 + ?r \<le> 32537987735957097 / 36028797018963968"
    by (simp add: hlo_numeral hhi_numeral hlo_1 hhi_1 down_def up_def fact_numeral power_divide)
  have e: "?x * hlo 10 (?x * ?x) 1 - ?r \<le> sin ?x" "sin ?x \<le> ?x * hhi 10 (?x * ?x) 1 + ?r"
    by (rule sin_enclosure [where b = "5 / 4"]; simp)+
  have "fl64 (sin ?x) = Fin (4067248466994637 / 4503599627370496)"
    by (rule fl64_pin_between [where k = "- 1" and n = 8134496933989274,
          OF order_trans [OF lo e(1)] order_trans [OF e(2) hi]])
      (simp_all add: p2_numeral p2_neg_numeral p2_minus_1)
  then show ?thesis by simp
qed

lemma sample_sq_sin_dLat:
  "js_sq (Fin (4067248466994637 / 4503599627370496)) =
      Fin (7346350235812971 / 9007199254740992)"
proof -
  have "fl64 ((4067248466994637 / 4503599627370496) * (4067248466994637 / 4503599627370496)) = Fin (7346350235812971 / 9007199254740992)"
    by (rule fl64_pin [where k = "- 1" and n = 7346350235812971])
      (simp_all add: p2_numeral p2_neg_numeral p2_minus_1)
  then show ?thesis by (simp add: js_sq_def)
qed

lemma sample_toRad_south:
  "toRad (Fin south_lat) = Fin (- (2537686285363927 / 2251799813685248))"
proof -
  have m: "fl64 (south_lat * pi64) = Fin (- (7137242677586045 / 35184372088832))"
    unfolding south_lat_def
    by (rule fl64_pin [where k = 7 and n = "- 7137242677586045"])
      (simp_all add: pi64_def p2_numeral p2_neg_numeral p2_minus_1)
  have d: "fl64 ((- (7137242677586045 / 35184372088832)) / 180) =
      Fin (- (2537686285363927 / 2251799813685248))"
    by (rule fl64_pin [where k = 0 and n = "- 5075372570727854"])
      (simp_all add: p2_numeral p2_neg_numeral p2_minus_1)
  show ?thesis
    using m d by (simp add: toRad_def Math_PI_def)
qed

lemma sample_toRad_north:
  "toRad (Fin north_lat) = Fin (5075372573871959 / 4503599627370496)"
proof -
  have m: "fl64 (north_lat * pi64) = Fin (7137242682007443 / 35184372088832)"
    unfolding north_lat_def
    by (rule fl64_pin [where k = 7 and n = 7137242682007443])
      (simp_all add: pi64_def p2_numeral p2_neg_numeral p2_minus_1)
  have d: "fl64 ((7137242682007443 / 35184372088832) / 180) =
      Fin (5075372573871959 / 4503599627370496)"
    by (rule fl64_pin [where k = 0 and n = 5075372573871959])
      (simp_all add: p2_numeral p2_neg_numeral p2_minus_1)
  show ?thesis
    using m d by (simp add: toRad_def Math_PI_def)
qed

lemma sample_cos_south:
  "Math_cos (Fin (- (2537686285363927 / 2251799813685248))) =
      Fin (483470495278193 / 1125899906842624)"
proof -
  let ?x = "2537686285363927 / 2251799813685248 :: real"
  let ?r = "(5 / 4) ^ (2 * 11) / fact (2 * 11) :: real"
  have lo: "30942111697804351 / 72057594037927936 \<le> hlo 11 (?x * ?x) 0 - ?r"
    by (simp add: hlo_numeral hhi_numeral hlo_1 hhi_1 down_def up_def fact_numeral power_divide)
  have hi: "hhi 11 (?x * ?x) 0 + ?r \<le> 30942111697804353 / 72057594037927936"
    by (simp add: hlo_numeral hhi_numeral hlo_1 hhi_1 down_def up_def fact_numeral power_divide)
  have e: "hlo 11 (?x * ?x) 0 - ?r \<le> cos ?x" "cos ?x \<le> hhi 11 (?x * ?x) 0 + ?r"
    by (rule cos_enclosure [where b = "5 / 4"]; simp)+
  have "fl64 (cos ?x) = Fin (483470495278193 / 1125899906842624)"
    by (rule fl64_pin_between [where k = "- 2" and n = 7735527924451088,
          OF order_trans [OF lo e(1)] order_trans [OF e(2) hi]])
      (simp_all add: p2_numeral p2_neg_numeral p2_minus_1)
  then show ?thesis by simp
qed

lemma sample_cos_north:
  "Math_cos (Fin (5075372573871959 / 4503599627370496)) =
      Fin (3867763956546595 / 9007199254740992)"
proof -
  let ?x = "5075372573871959 / 4503599627370496 :: real"
  let ?r = "(5 / 4) ^ (2 * 11) / fact (2 * 11) :: real"
  have lo: "30942111652372759 / 72057594037927936 \<le> hlo 11 (?x * ?x) 0 - ?r"
    by (simp add: hlo_numeral hhi_numeral hlo_1 hhi_1 down_def up_def fact_numeral power_divide)
  have hi: "hhi 11 (?x * ?x) 0 + ?r \<le> 30942111652372761 / 72057594037927936"
    by (simp add: hlo_numeral hhi_numeral hlo_1 hhi_1 down_def up_def fact_numeral power_divide)
  have e: "hlo 11 (?x * ?x) 0 - ?r \<le> cos ?x" "cos ?x \<le> hhi 11 (?x * ?x) 0 + ?r"
    by (rule cos_enclosure [where b = "5 / 4"]; simp)+
  have "fl64 (cos ?x) = Fin (3867763956546595 / 9007199254740992)"
    by (rule fl64_pin_between [where k = "- 2" and n = 7735527913093190,
          OF order_trans [OF lo e(1)] order_trans [OF e(2) hi]])
      (simp_all add: p2_numeral p2_neg_numeral p2_minus_1)
  then show ?thesis by simp
qed

lemma sample_cos_product:
  "mul64 (Fin (483470495278193 / 1125899906842624)) (Fin (3867763956546595 / 9007199254740992)) =
      Fin (207606127366003 / 1125899906842624)"
proof -
  have "fl64 ((483470495278193 / 1125899906842624) * (3867763956546595 / 9007199254740992)) =
      Fin (207606127366003 / 1125899906842624)"
    by (rule fl64_pin [where k = "- 3" and n = 6643396075712096])
      (simp_all add: p2_numeral p2_neg_numeral p2_minus_1)
  then show ?thesis by simp
qed

lemma sample_cos_product_one:
  "mul64 (Fin (207606127366003 / 1125899906842624)) (Fin 1) =
      Fin (207606127366003 / 1125899906842624)"
proof -
  have "fl64 ((207606127366003 / 1125899906842624) * 1) =
      Fin (207606127366003 / 1125899906842624)"
    by (rule fl64_pin [where k = "- 3" and n = 6643396075712096])
      (simp_all add: p2_numeral p2_neg_numeral p2_minus_1)
  then show ?thesis by simp
qed

lemma sample_dLon: "toRad (Fin 180) = Fin pi64"
proof -
  have m: "fl64 (180 * pi64) = Fin (4974073419394997 / 8796093022208)"
    unfolding pi64_def
    by (rule fl64_pin [where k = 9 and n = 4974073419394997])
      (simp_all add: p2_numeral p2_neg_numeral p2_minus_1)
  have d: "fl64 ((4974073419394997 / 8796093022208) / 180) = Fin pi64"
    unfolding pi64_def
    by (rule fl64_pin [where k = 1 and n = 7074237752028440])
      (simp_all add: p2_numeral p2_neg_numeral p2_minus_1)
  show ?thesis
    using m d by (simp add: toRad_def Math_PI_def)
qed

lemma sample_sin_dLon: "Math_sin (div64 (Fin pi64) (Fin 2)) = Fin 1"
proof -
  let ?x = "884279719003555 / 562949953421312 :: real"
  let ?r = "(13 / 8) ^ (2 * 11 + 1) / fact (2 * 11 + 1) :: real"
  have h: "fl64 (pi64 / 2) = Fin ?x"
    unfolding pi64_def
    by (rule fl64_pin [where k = 0 and n = 7074237752028440])
      (simp_all add: p2_numeral p2_neg_numeral p2_minus_1)
  have lo: "1 - 1 / 2 ^ 54 < ?x * hlo 11 (?x * ?x) 1 - ?r"
    by (simp add: hlo_numeral hhi_numeral hlo_1 hhi_1 down_def up_def fact_numeral power_divide)
  have e: "?x * hlo 11 (?x * ?x) 1 - ?r \<le> sin ?x"
    by (rule sin_enclosure [where b = "13 / 8"]; simp)
  have "fl64 (sin ?x) = Fin 1"
    by (rule fl64_near_one [OF less_le_trans [OF lo e]]) simp
  with h show ?thesis by simp
qed

lemma sample_sum:
  "add64 (Fin (7346350235812971 / 9007199254740992)) (Fin (207606127366003 / 1125899906842624)) =
      Fin (2251799813685249 / 2251799813685248)"
proof -
  have "fl64 ((7346350235812971 / 9007199254740992) + (207606127366003 / 1125899906842624)) =
      Fin (2251799813685249 / 2251799813685248)"
    by (rule fl64_pin_even [where k = 0 and n = 4503599627370498])
      (simp_all add: p2_numeral p2_neg_numeral p2_minus_1)
  then show ?thesis by simp
qed

lemma sample_lon_difference: "sub64 (Fin 180) (Fin 0) = Fin 180"
  by (simp add: sub64_def)

lemma js_sq_1: "js_sq (Fin 1) = Fin 1"
  by (simp add: js_sq_def)

text \<open>The argument of the square root exceeds 1 by \<open>2^-51\<close>.\<close>

lemma sample_hav_A:
  "hav_A \<lparr>lat = Fin south_lat, lon = Fin 0, ele = e\<rparr> \<lparr>lat = Fin north_lat, lon = Fin 180, ele = e'\<rparr> =
     Fin (2251799813685249 / 2251799813685248)"
  unfolding hav_A_def Let_def
  by (simp only: point.select_convs sample_lat_difference sample_dLat sample_half_dLat
      sample_sin_dLat sample_sq_sin_dLat sample_toRad_south sample_toRad_north sample_cos_south
      sample_cos_north sample_cos_product sample_lon_difference sample_dLon sample_sin_dLon
      js_sq_1 sample_cos_product_one sample_sum)

lemma sample_sqrt:
  "Math_sqrt (Fin (2251799813685249 / 2251799813685248)) =
      Fin (4503599627370497 / 4503599627370496)"
proof -
  let ?a = "2251799813685249 / 2251799813685248 :: real"
  have e: "18014398509481987 / 18014398509481984 \<le> sqrt ?a" "sqrt ?a \<le> 18014398509481989 / 18014398509481984"
    by (rule sqrt_lower sqrt_upper; simp)+
  have "fl64 (sqrt ?a) = Fin (4503599627370497 / 4503599627370496)"
    by (rule fl64_pin_between [where k = 0 and n = 4503599627370497, OF e])
      (simp_all add: p2_numeral p2_neg_numeral p2_minus_1)
  then show ?thesis by simp
qed

text \<open>The square root is above 1, where \<^verbatim>\<open>Math.asin\<close> is NaN.\<close>

lemma sample_haversine:
  "haversineMiles \<lparr>lat = Fin south_lat, lon = Fin 0, ele = e\<rparr>
     \<lparr>lat = Fin north_lat, lon = Fin 180, ele = e'\<rparr> = NaN"
  unfolding haversineMiles_def Let_def sample_hav_A sample_sqrt two_R_km
  by simp

text \<open>
  Claim C3 fails on the code: a track of the two points (-64.56999996, 0) and
  (64.57, 180) has finite coordinates in the valid range, and its distance series is
  \<open>[0, NaN]\<close>. The rounded argument of the square root in \<^verbatim>\<open>haversineMiles\<close> is
  \<open>1 + 2^-51\<close>, its square root \<open>1 + 2^-52\<close> is outside the domain of \<^verbatim>\<open>Math.asin\<close>, and
  the comparison \<^verbatim>\<open>distMi[0] <= distMi[1]\<close> is false.
\<close>

theorem distance_NaN_near_antipodes:
  "parseGPXToSeries [[south_trkpt, north_trkpt]] =
     Inr \<lparr>pts = [\<lparr>lat = Fin south_lat, lon = Fin 0, ele = Fin 0\<rparr>,
                 \<lparr>lat = Fin north_lat, lon = Fin 180, ele = Fin 0\<rparr>],
          distMi = [Fin 0, NaN], elevFt = [Fin 0, Fin 0], totalMi = NaN,
          stageScatter = [\<lparr>x_mi = Some NaN, y_ft = Some (Fin 0), isFinal = True\<rparr>]\<rparr> \<and>
   \<not> js_le ([Fin 0, NaN] ! 0) ([Fin 0, NaN] ! 1)"
  by (simp add: run_builder south_trkpt_def north_trkpt_def sample_haversine)

section \<open>Great-circle distance: scenario A (claim C9)\<close>

text \<open>
  The distance between (0, 0) and (0, 1), operation by operation: the result is the
  double \<open>4862008946593749 / 2^46\<close>, which prints as 69.0933027640561.
\<close>

lemma one_degree:
  "toRad (Fin 1) = Fin (5030569068109113 / 288230376151711744)"
proof -
  have m: "fl64 (1 * pi64) = Fin (884279719003555 / 281474976710656)"
    by (rule fl64_pin [where k = 1 and n = 7074237752028440])
      (simp_all add: pi64_def p2_numeral p2_neg_numeral p2_minus_1)
  have d: "fl64 ((884279719003555 / 281474976710656) / 180) =
      Fin (5030569068109113 / 288230376151711744)"
    by (rule fl64_pin [where k = "- 6" and n = 5030569068109113])
      (simp_all add: p2_numeral p2_neg_numeral p2_minus_1)
  show ?thesis
    using m d by (simp add: toRad_def Math_PI_def)
qed

lemma half_degree:
  "div64 (Fin (5030569068109113 / 288230376151711744)) (Fin 2) =
      Fin (5030569068109113 / 576460752303423488)"
proof -
  have "fl64 ((5030569068109113 / 288230376151711744) / 2) =
      Fin (5030569068109113 / 576460752303423488)"
    by (rule fl64_pin [where k = "- 7" and n = 5030569068109113])
      (simp_all add: p2_numeral p2_neg_numeral p2_minus_1)
  then show ?thesis by simp
qed

lemma sin_half_degree:
  "Math_sin (Fin (5030569068109113 / 576460752303423488)) =
      Fin (5030505218395169 / 576460752303423488)"
proof -
  let ?x = "5030569068109113 / 576460752303423488 :: real"
  let ?r = "(9 / 1024) ^ (2 * 5 + 1) / fact (2 * 5 + 1) :: real"
  have lo: "20122020873580675 / 2305843009213693952 \<le> ?x * hlo 5 (?x * ?x) 1 - ?r"
    by (simp add: hlo_numeral hhi_numeral hlo_1 hhi_1 down_def up_def fact_numeral power_divide)
  have hi: "?x * hhi 5 (?x * ?x) 1 + ?r \<le> 20122020873580677 / 2305843009213693952"
    by (simp add: hlo_numeral hhi_numeral hlo_1 hhi_1 down_def up_def fact_numeral power_divide)
  have e: "?x * hlo 5 (?x * ?x) 1 - ?r \<le> sin ?x" "sin ?x \<le> ?x * hhi 5 (?x * ?x) 1 + ?r"
    by (rule sin_enclosure [where b = "9 / 1024"]; simp)+
  have "fl64 (sin ?x) = Fin (5030505218395169 / 576460752303423488)"
    by (rule fl64_pin_between [where k = "- 7" and n = 5030505218395169,
          OF order_trans [OF lo e(1)] order_trans [OF e(2) hi]])
      (simp_all add: p2_numeral p2_neg_numeral p2_minus_1)
  then show ?thesis by simp
qed

lemma sq_sin_half_degree:
  "mul64 (Fin (5030505218395169 / 576460752303423488)) (Fin (5030505218395169 / 576460752303423488)) =
      Fin (2809528471237169 / 36893488147419103232)"
proof -
  have "fl64 ((5030505218395169 / 576460752303423488) * (5030505218395169 / 576460752303423488)) =
      Fin (2809528471237169 / 36893488147419103232)"
    by (rule fl64_pin [where k = "- 14" and n = 5619056942474338])
      (simp_all add: p2_numeral p2_neg_numeral p2_minus_1)
  then show ?thesis by simp
qed

lemma hav_A_product:
  "mul64 (Fin 1) (Fin (2809528471237169 / 36893488147419103232)) =
      Fin (2809528471237169 / 36893488147419103232)"
proof -
  have "fl64 (1 * (2809528471237169 / 36893488147419103232)) =
      Fin (2809528471237169 / 36893488147419103232)"
    by (rule fl64_pin [where k = "- 14" and n = 5619056942474338])
      (simp_all add: p2_numeral p2_neg_numeral p2_minus_1)
  then show ?thesis by simp
qed

lemma hav_A_sum:
  "add64 (Fin 0) (Fin (2809528471237169 / 36893488147419103232)) =
      Fin (2809528471237169 / 36893488147419103232)"
proof -
  have "fl64 (0 + (2809528471237169 / 36893488147419103232)) =
      Fin (2809528471237169 / 36893488147419103232)"
    by (rule fl64_pin [where k = "- 14" and n = 5619056942474338])
      (simp_all add: p2_numeral p2_neg_numeral p2_minus_1)
  then show ?thesis by simp
qed

lemma sqrt_hav_A:
  "Math_sqrt (Fin (2809528471237169 / 36893488147419103232)) =
      Fin (5030505218395169 / 576460752303423488)"
proof -
  let ?a = "2809528471237169 / 36893488147419103232 :: real"
  have e: "20122020873580675 / 2305843009213693952 \<le> sqrt ?a" "sqrt ?a \<le> 20122020873580677 / 2305843009213693952"
    by (rule sqrt_lower sqrt_upper; simp)+
  have "fl64 (sqrt ?a) = Fin (5030505218395169 / 576460752303423488)"
    by (rule fl64_pin_between [where k = "- 7" and n = 5030505218395169, OF e])
      (simp_all add: p2_numeral p2_neg_numeral p2_minus_1)
  then show ?thesis by simp
qed

lemma asin_sqrt_hav_A:
  "Math_asin (Fin (5030505218395169 / 576460752303423488)) =
      Fin (5030569068109113 / 576460752303423488)"
proof -
  let ?a = "5030505218395169 / 576460752303423488 :: real"
  let ?lo = "20122276272436451 / 2305843009213693952 :: real"
  let ?hi = "20122276272436453 / 2305843009213693952 :: real"
  let ?r = "(9 / 1024) ^ (2 * 5 + 1) / fact (2 * 5 + 1) :: real"
  have lo: "?lo * hhi 5 (?lo * ?lo) 1 + ?r \<le> ?a"
    by (simp add: hlo_numeral hhi_numeral hlo_1 hhi_1 down_def up_def fact_numeral power_divide)
  have hi: "?a \<le> ?hi * hlo 5 (?hi * ?hi) 1 - ?r"
    by (simp add: hlo_numeral hhi_numeral hlo_1 hhi_1 down_def up_def fact_numeral power_divide)
  have e: "?lo \<le> arcsin ?a" "arcsin ?a \<le> ?hi"
    by (rule arcsin_enclosure [where b = "9 / 1024", OF _ _ _ _ lo hi]; simp)+
  have "fl64 (arcsin ?a) = Fin (5030569068109113 / 576460752303423488)"
    by (rule fl64_pin_between [where k = "- 7" and n = 5030569068109113, OF e])
      (simp_all add: p2_numeral p2_neg_numeral p2_minus_1)
  then show ?thesis by simp
qed

lemma one_degree_km:
  "mul64 (Fin 12742) (Fin (5030569068109113 / 576460752303423488)) =
      Fin (1956161836726267 / 17592186044416)"
proof -
  have "fl64 (12742 * (5030569068109113 / 576460752303423488)) =
      Fin (1956161836726267 / 17592186044416)"
    by (rule fl64_pin [where k = 6 and n = 7824647346905068])
      (simp_all add: p2_numeral p2_neg_numeral p2_minus_1)
  then show ?thesis by simp
qed

lemma one_degree_miles:
  "mul64 (Fin (1956161836726267 / 17592186044416)) mi_per_km =
      Fin (4862008946593749 / 70368744177664)"
proof -
  have "fl64 ((1956161836726267 / 17592186044416) * mi64) = Fin (4862008946593749 / 70368744177664)"
    unfolding mi64_def
    by (rule fl64_pin [where k = 6 and n = 4862008946593749])
      (simp_all add: p2_numeral p2_neg_numeral p2_minus_1)
  then show ?thesis by (simp add: mi_per_km_def)
qed

lemma scenario_A_hav_A:
  "hav_A \<lparr>lat = Fin 0, lon = Fin 0, ele = Fin 0\<rparr> \<lparr>lat = Fin 0, lon = Fin 1, ele = Fin 0\<rparr> =
     Fin (2809528471237169 / 36893488147419103232)"
  unfolding hav_A_def Let_def
  by (simp add: sub64_def toRad_0 js_sq_def)
    (simp only: one_degree half_degree sin_half_degree sq_sin_half_degree hav_A_product hav_A_sum)

lemma scenario_A_value:
  "haversineMiles \<lparr>lat = Fin 0, lon = Fin 0, ele = Fin 0\<rparr> \<lparr>lat = Fin 0, lon = Fin 1, ele = Fin 0\<rparr> =
     Fin (4862008946593749 / 70368744177664)"
  unfolding haversineMiles_def Let_def scenario_A_hav_A two_R_km
  by (simp only: sqrt_hav_A asin_sqrt_hav_A one_degree_km one_degree_miles)

text \<open>
  Claim C9, as stated, fails: with the radius 6371 km and the factor 0.621371 the distance
  between (0, 0) and (0, 1) is below 69.1 miles, so it is not 69.17 to the two decimals
  the claim gives.
\<close>

theorem scenario_A_below_69_17:
  "js_lt (haversineMiles \<lparr>lat = Fin 0, lon = Fin 0, ele = Fin 0\<rparr>
            \<lparr>lat = Fin 0, lon = Fin 1, ele = Fin 0\<rparr>) (Fin 69.1)"
  by (simp add: scenario_A_value)

text \<open>
  Claim C9, amended: the distance between (0, 0) and (0, 1) is approximately 69.09 miles:
  it lies between 69.09 and 69.10.
\<close>

theorem scenario_A_distance:
  "js_lt (Fin 69.09) (haversineMiles \<lparr>lat = Fin 0, lon = Fin 0, ele = Fin 0\<rparr>
            \<lparr>lat = Fin 0, lon = Fin 1, ele = Fin 0\<rparr>) \<and>
   js_lt (haversineMiles \<lparr>lat = Fin 0, lon = Fin 0, ele = Fin 0\<rparr>
            \<lparr>lat = Fin 0, lon = Fin 1, ele = Fin 0\<rparr>) (Fin 69.1)"
  by (simp add: scenario_A_value)

section \<open>The nearest-index locator\<close>

subsection \<open>The loop ends inside the array (claim C10)\<close>

lemma toInt32_id: "- (2 ^ 31) \<le> n \<Longrightarrow> n < 2 ^ 31 \<Longrightarrow> toInt32 n = n"
  by (simp add: toInt32_def)

lemma sar1_half: "0 \<le> n \<Longrightarrow> n < 2 ^ 31 \<Longrightarrow> sar1 n = n div 2"
  by (simp add: sar1_def toInt32_id)

lemma sar1_wrapped:
  assumes "2 ^ 31 \<le> n" "n < 2 ^ 32"
  shows "sar1 n < 0"
proof -
  have "(n + 2 ^ 31) mod 2 ^ 32 = n + 2 ^ 31 - 2 ^ 32"
    using assms by (simp add: mod_pos_geq)
  then have "toInt32 n = n - 2 ^ 32"
    by (simp add: toInt32_def)
  with assms show ?thesis
    by (simp add: sar1_def)
qed

lemma num_at_negative: "i < 0 \<Longrightarrow> num_at d i = NaN"
  by (simp add: num_at_def)

lemma js_lt_NaN_left [simp]: "js_lt NaN b = False"
  by simp

text \<open>
  The loop ends with a result between the bounds it starts from, whatever the array
  holds and whatever the query is, as long as the array has a length JavaScript allows.
\<close>

lemma lower_bound_loop_total:
  assumes "0 \<le> lo" "lo \<le> hi" "hi < int (length d)" "lo + hi < 2 ^ 32"
  shows "\<exists>r. lower_bound_loop d mi lo hi = Some r \<and> lo \<le> r \<and> r \<le> hi"
  using assms
proof (induction "nat (hi - lo)" arbitrary: lo hi rule: less_induct)
  case less
  show ?case
  proof (cases "lo < hi")
    case False
    with less.prems have "lower_bound_loop d mi lo hi = Some lo"
      by (subst lower_bound_loop.simps) simp
    with less.prems show ?thesis by simp
  next
    case True
    define mid where "mid = sar1 (lo + hi)"
    show ?thesis
    proof (cases "lo + hi < 2 ^ 31")
      case small: True
      with less.prems True have mid: "mid = (lo + hi) div 2"
        by (simp add: mid_def sar1_half)
      with True have range: "lo \<le> mid" "mid < hi" by simp_all
      show ?thesis
      proof (cases "js_lt (num_at d mid) mi")
        case lt: True
        have step: "lower_bound_loop d mi lo hi = lower_bound_loop d mi (mid + 1) hi"
          using True lt by (subst lower_bound_loop.simps) (simp add: mid_def)
        have "\<exists>r. lower_bound_loop d mi (mid + 1) hi = Some r \<and> mid + 1 \<le> r \<and> r \<le> hi"
        proof (rule less.hyps)
          show "nat (hi - (mid + 1)) < nat (hi - lo)" using range by simp
          show "0 \<le> mid + 1" using range less.prems by simp
          show "mid + 1 \<le> hi" using range by simp
          show "hi < int (length d)" by (rule less.prems)
          show "mid + 1 + hi < 2 ^ 32" using range small less.prems by simp
        qed
        with step range show ?thesis by auto
      next
        case ge: False
        have step: "lower_bound_loop d mi lo hi = lower_bound_loop d mi lo mid"
          using True ge by (subst lower_bound_loop.simps) (simp add: mid_def)
        have "\<exists>r. lower_bound_loop d mi lo mid = Some r \<and> lo \<le> r \<and> r \<le> mid"
        proof (rule less.hyps)
          show "nat (mid - lo) < nat (hi - lo)" using range by simp
          show "0 \<le> lo" by (rule less.prems)
          show "lo \<le> mid" by (rule range)
          show "mid < int (length d)" using range less.prems by simp
          show "lo + mid < 2 ^ 32" using range less.prems by simp
        qed
        with step range show ?thesis by auto
      qed
    next
      case False
      with less.prems have neg: "mid < 0"
        by (simp add: mid_def sar1_wrapped)
      then have "\<not> js_lt (num_at d mid) mi"
        by (simp add: num_at_negative)
      with True have step: "lower_bound_loop d mi lo hi = lower_bound_loop d mi lo mid"
        by (subst lower_bound_loop.simps) (simp add: mid_def)
      from neg less.prems have "lower_bound_loop d mi lo mid = Some lo"
        by (subst lower_bound_loop.simps) simp
      with step less.prems show ?thesis by simp
    qed
  qed
qed

lemma pick_nearest_range:
  assumes "0 \<le> lo" "lo < n"
  shows "0 \<le> pick_nearest d mi lo \<and> pick_nearest d mi lo < n"
  using assms by (simp add: pick_nearest_def Let_def)

lemma kmToIndex_in_range:
  assumes "1 \<le> length d" "int (length d) \<le> 2 ^ 32"
  shows "\<exists>idx. kmToIndex d mi = Some idx \<and> 0 \<le> idx \<and> idx < int (length d)"
proof -
  have "\<exists>r. lower_bound_loop d mi 0 (int (length d) - 1) = Some r \<and> 0 \<le> r
          \<and> r \<le> int (length d) - 1"
  proof (rule lower_bound_loop_total)
    show "(0::int) \<le> 0" by simp
    show "0 \<le> int (length d) - 1" using assms(1) by linarith
    show "int (length d) - 1 < int (length d)" by simp
    show "0 + (int (length d) - 1) < 2 ^ 32" using assms(2) by simp
  qed
  then obtain r where r: "lower_bound_loop d mi 0 (int (length d) - 1) = Some r"
    "0 \<le> r" "r < int (length d)" by auto
  from r(2,3) have "0 \<le> pick_nearest d mi r \<and> pick_nearest d mi r < int (length d)"
    by (rule pick_nearest_range)
  with r(1) show ?thesis
    by (simp add: kmToIndex_def)
qed

text \<open>
  Claim C10: for a series with at least one point and as many distances as points (no
  more than a JavaScript array can hold), and for any query, NaN and the infinities
  included, the locator returns an index at which the series has a point.
\<close>

theorem locator_total:
  assumes "length (distMi s) = length (pts s)" "pts s \<noteq> []" "int (length (pts s)) < 2 ^ 32"
  shows "\<exists>idx. kmToIndex (distMi s) mi = Some idx \<and> 0 \<le> idx \<and> idx < int (length (pts s)) \<and>
           elem_at (pts s) idx = Some (pts s ! nat idx)"
proof -
  have "1 \<le> length (distMi s)"
    using assms(1,2) by (cases "pts s") simp_all
  moreover have "int (length (distMi s)) \<le> 2 ^ 32"
    using assms(1,3) by simp
  ultimately have "\<exists>idx. kmToIndex (distMi s) mi = Some idx \<and> 0 \<le> idx
      \<and> idx < int (length (distMi s))"
    by (rule kmToIndex_in_range)
  then show ?thesis
    by (auto simp add: assms(1) elem_at_def)
qed

lemmas run_locator =
  kmToIndex_def lower_bound_loop.simps sar1_def toInt32_def pick_nearest_def num_at_def
  sub64_def

text \<open>
  Claim C10 at a series of three points, with a query above the total distance and
  with the query NaN.
\<close>

theorem locator_total_witness:
  "length (distMi \<lparr>pts = [origin_point (Fin 0), origin_point (Fin 0), origin_point (Fin 0)],
       distMi = [Fin 0, Fin 1, Fin 3], elevFt = [Fin 0, Fin 0, Fin 0], totalMi = Fin 3,
       stageScatter = []\<rparr>) =
   length (pts \<lparr>pts = [origin_point (Fin 0), origin_point (Fin 0), origin_point (Fin 0)],
       distMi = [Fin 0, Fin 1, Fin 3], elevFt = [Fin 0, Fin 0, Fin 0], totalMi = Fin 3,
       stageScatter = []\<rparr>) \<and>
   [origin_point (Fin 0), origin_point (Fin 0), origin_point (Fin 0)] \<noteq> [] \<and>
   int (length [origin_point (Fin 0), origin_point (Fin 0), origin_point (Fin 0)]) < 2 ^ 32 \<and>
   kmToIndex [Fin 0, Fin 1, Fin 3] (Fin 9) = Some 2 \<and>
   kmToIndex [Fin 0, Fin 1, Fin 3] NaN = Some 0 \<and>
   kmToIndex [Fin 0, Fin 1, Fin 3] (Fin (- 4)) = Some 0"
  using locator_total [of "\<lparr>pts = [origin_point (Fin 0), origin_point (Fin 0),
       origin_point (Fin 0)],
       distMi = [Fin 0, Fin 1, Fin 3], elevFt = [Fin 0, Fin 0, Fin 0], totalMi = Fin 3,
       stageScatter = []\<rparr>" "Fin 9"]
  by (simp add: run_locator)

subsection \<open>The locator returns an index of least computed distance (claim C1)\<close>

lemma num_at_map_Fin:
  "0 \<le> i \<Longrightarrow> i < int (length xs) \<Longrightarrow> num_at (map Fin xs) i = Fin (xs ! nat i)"
  by (simp add: num_at_def)

text \<open>On a non-decreasing array the loop finds the first entry that is not below the query.\<close>

lemma lower_bound_loop_sorted:
  assumes "sorted xs" "int (length xs) \<le> 2 ^ 30"
    and "0 \<le> lo" "lo \<le> hi" "hi < int (length xs)"
    and "\<forall>k < nat lo. xs ! k < x" "x \<le> xs ! nat hi"
  shows "\<exists>r. lower_bound_loop (map Fin xs) (Fin x) lo hi = Some r \<and> lo \<le> r \<and> r \<le> hi \<and>
           (\<forall>k < nat r. xs ! k < x) \<and> x \<le> xs ! nat r"
  using assms(3-)
proof (induction "nat (hi - lo)" arbitrary: lo hi rule: less_induct)
  case less
  show ?case
  proof (cases "lo < hi")
    case False
    with less.prems have eq: "lo = hi" by simp
    from False have "lower_bound_loop (map Fin xs) (Fin x) lo hi = Some lo"
      by (subst lower_bound_loop.simps) simp
    with less.prems eq show ?thesis by simp
  next
    case True
    define mid where "mid = sar1 (lo + hi)"
    have "lo + hi < 2 ^ 31"
      using less.prems assms(2) by simp
    with less.prems have mid: "mid = (lo + hi) div 2"
      by (simp add: mid_def sar1_half)
    with True have range: "lo \<le> mid" "mid < hi" by simp_all
    have at_mid: "num_at (map Fin xs) mid = Fin (xs ! nat mid)"
      using range less.prems by (simp add: num_at_map_Fin)
    show ?thesis
    proof (cases "xs ! nat mid < x")
      case lt: True
      have step: "lower_bound_loop (map Fin xs) (Fin x) lo hi =
          lower_bound_loop (map Fin xs) (Fin x) (mid + 1) hi"
        using True lt at_mid by (subst lower_bound_loop.simps) (simp add: mid_def [symmetric])
      have below: "\<forall>k < nat (mid + 1). xs ! k < x"
      proof (intro allI impI)
        fix k assume "k < nat (mid + 1)"
        then have "k \<le> nat mid" using range less.prems by simp
        moreover have "nat mid < length xs" using range less.prems by simp
        ultimately have "xs ! k \<le> xs ! nat mid"
          using assms(1) by (simp add: sorted_nth_mono)
        with lt show "xs ! k < x" by simp
      qed
      have "\<exists>r. lower_bound_loop (map Fin xs) (Fin x) (mid + 1) hi = Some r \<and> mid + 1 \<le> r \<and>
              r \<le> hi \<and> (\<forall>k < nat r. xs ! k < x) \<and> x \<le> xs ! nat r"
      proof (rule less.hyps)
        show "nat (hi - (mid + 1)) < nat (hi - lo)" using range by simp
        show "0 \<le> mid + 1" using range less.prems by simp
        show "mid + 1 \<le> hi" using range by simp
        show "hi < int (length xs)" by (rule less.prems)
        show "\<forall>k < nat (mid + 1). xs ! k < x" by (rule below)
        show "x \<le> xs ! nat hi" by (rule less.prems)
      qed
      with step range show ?thesis by auto
    next
      case ge: False
      have step: "lower_bound_loop (map Fin xs) (Fin x) lo hi =
          lower_bound_loop (map Fin xs) (Fin x) lo mid"
        using True ge at_mid by (subst lower_bound_loop.simps) (simp add: mid_def [symmetric])
      have "\<exists>r. lower_bound_loop (map Fin xs) (Fin x) lo mid = Some r \<and> lo \<le> r \<and>
              r \<le> mid \<and> (\<forall>k < nat r. xs ! k < x) \<and> x \<le> xs ! nat r"
      proof (rule less.hyps)
        show "nat (mid - lo) < nat (hi - lo)" using range by simp
        show "0 \<le> lo" by (rule less.prems)
        show "lo \<le> mid" by (rule range)
        show "mid < int (length xs)" using range less.prems by simp
        show "\<forall>k < nat lo. xs ! k < x" by (rule less.prems)
        show "x \<le> xs ! nat mid" using ge by simp
      qed
      with step range show ?thesis by auto
    qed
  qed
qed

text \<open>The distance of an entry from the query as the locator computes it.\<close>

lemma computed_distance:
  "Math_abs (sub64 (Fin v) (Fin x)) = fl64 \<bar>v - x\<bar>"
  by (simp add: sub64_def Math_abs_fl64)

lemma computed_distance_mono:
  assumes "\<bar>v - x\<bar> \<le> \<bar>w - x\<bar>"
  shows "js_le (Math_abs (sub64 (Fin v) (Fin x))) (Math_abs (sub64 (Fin w) (Fin x)))"
  unfolding computed_distance using assms by (rule fl64_mono)

text \<open>
  The index the nearest-neighbour step picks from a lower bound \<open>i2\<close>, as an index into
  the list of finite values.
\<close>

lemma pick_nearest_Fin:
  assumes "i2 < length xs"
  shows "pick_nearest (map Fin xs) (Fin x) (int i2) =
           int (if js_le (Math_abs (sub64 (Fin (xs ! (i2 - 1))) (Fin x)))
                         (Math_abs (sub64 (Fin (xs ! i2)) (Fin x)))
                then i2 - 1 else i2)"
proof -
  have m: "max 0 (int i2 - 1) = int (i2 - 1)" by simp
  have a1: "num_at (map Fin xs) (int (i2 - 1)) = Fin (xs ! (i2 - 1))"
    using assms by (simp add: num_at_def)
  have a2: "num_at (map Fin xs) (int i2) = Fin (xs ! i2)"
    using assms by (simp add: num_at_def)
  show ?thesis
    unfolding pick_nearest_def Let_def m a1 a2 by simp
qed

text \<open>
  Around a lower bound \<open>i2\<close> of a non-decreasing list, the entries below \<open>i2\<close> are no
  nearer to the query than the entry \<open>i2 - 1\<close>, and the others no nearer than the entry
  \<open>i2\<close>.
\<close>

lemma candidates_nearest:
  fixes xs :: "real list"
  assumes "sorted xs" "i2 < length xs" "x \<le> xs ! i2" "\<forall>k < i2. xs ! k < x" "j < length xs"
  shows "j < i2 \<Longrightarrow> \<bar>xs ! (i2 - 1) - x\<bar> \<le> \<bar>xs ! j - x\<bar>"
    and "i2 \<le> j \<Longrightarrow> \<bar>xs ! i2 - x\<bar> \<le> \<bar>xs ! j - x\<bar>"
proof -
  assume "j < i2"
  then have "j \<le> i2 - 1" "i2 - 1 < i2" by simp_all
  with assms(1,2) have "xs ! j \<le> xs ! (i2 - 1)"
    by (simp add: sorted_nth_mono)
  moreover have "xs ! (i2 - 1) < x"
    using assms(4) \<open>i2 - 1 < i2\<close> by blast
  ultimately show "\<bar>xs ! (i2 - 1) - x\<bar> \<le> \<bar>xs ! j - x\<bar>" by linarith
next
  assume "i2 \<le> j"
  with assms(1,5) have "xs ! i2 \<le> xs ! j"
    by (simp add: sorted_nth_mono)
  with assms(3) show "\<bar>xs ! i2 - x\<bar> \<le> \<bar>xs ! j - x\<bar>" by linarith
qed

lemma computed_nearest_of_lower_bound:
  fixes xs :: "real list"
  assumes "sorted xs" "i2 < length xs" "x \<le> xs ! i2" "\<forall>k < i2. xs ! k < x"
    and "idx = (if js_le (Math_abs (sub64 (Fin (xs ! (i2 - 1))) (Fin x)))
                         (Math_abs (sub64 (Fin (xs ! i2)) (Fin x)))
                then i2 - 1 else i2)"
    and "j < length xs"
  shows "js_le (Math_abs (sub64 (Fin (xs ! idx)) (Fin x))) (Math_abs (sub64 (Fin (xs ! j)) (Fin x)))"
proof -
  note c = candidates_nearest [OF assms(1-4,6)]
  show ?thesis
  proof (cases "js_le (Math_abs (sub64 (Fin (xs ! (i2 - 1))) (Fin x)))
                      (Math_abs (sub64 (Fin (xs ! i2)) (Fin x)))")
    case True
    then have idx: "idx = i2 - 1" using assms(5) by simp
    show ?thesis
    proof (cases "j < i2")
      case True
      from c(1) [OF this] show ?thesis
        unfolding idx by (rule computed_distance_mono)
    next
      case False
      then have "i2 \<le> j" by simp
      from c(2) [OF this]
      have "js_le (Math_abs (sub64 (Fin (xs ! i2)) (Fin x))) (Math_abs (sub64 (Fin (xs ! j)) (Fin x)))"
        by (rule computed_distance_mono)
      with True show ?thesis
        unfolding idx computed_distance by (rule js_le_fl64_trans)
    qed
  next
    case False
    then have idx: "idx = i2" using assms(5) by simp
    from False have rev: "js_le (Math_abs (sub64 (Fin (xs ! i2)) (Fin x)))
        (Math_abs (sub64 (Fin (xs ! (i2 - 1))) (Fin x)))"
      unfolding computed_distance
      using js_le_fl64_total [of "\<bar>xs ! (i2 - 1) - x\<bar>" "\<bar>xs ! i2 - x\<bar>"] by blast
    show ?thesis
    proof (cases "j < i2")
      case True
      from c(1) [OF this]
      have "js_le (Math_abs (sub64 (Fin (xs ! (i2 - 1))) (Fin x)))
          (Math_abs (sub64 (Fin (xs ! j)) (Fin x)))"
        by (rule computed_distance_mono)
      with rev show ?thesis
        unfolding idx computed_distance by (rule js_le_fl64_trans)
    next
      case False
      then have "i2 \<le> j" by simp
      from c(2) [OF this] show ?thesis
        unfolding idx by (rule computed_distance_mono)
    qed
  qed
qed


text \<open>The double \<open>1/4 - 2^-55\<close> and the two computed distances from the query 1.\<close>

lemma near_quarter_double: "is_double (9007199254740991 / 36028797018963968)"
proof -
  have "round64 (9007199254740991 / 36028797018963968) = 9007199254740991 / 36028797018963968"
    by (rule round64_representable [where n = 9007199254740991 and e = "- 55"])
      (simp_all add: p2_neg_numeral)
  then show ?thesis
    by (simp add: is_double_def max_double_def)
qed

lemma near_quarter_distance:
  "sub64 (Fin (9007199254740991 / 36028797018963968)) (Fin 1) = Fin (- (3 / 4))"
proof -
  have "round64 (9007199254740991 / 36028797018963968 + - 1) = - (3 / 4)"
  proof (rule round64_nearest [where n = "- 6755399441055744" and e = "- 53"])
    show "- (3 / 4) = of_int (- 6755399441055744) * p2 (- 53)"
      by (simp add: p2_neg_numeral)
    have e: "ulp_exp (9007199254740991 / 36028797018963968 + - 1) = max (- 1 - 52) (- 1074)"
      by (rule ulp_exp_eq) (simp_all add: p2_minus_1)
    then show "ulp_exp (9007199254740991 / 36028797018963968 + - 1) \<le> - 53" by simp
    from e have "ulp (9007199254740991 / 36028797018963968 + - 1) = p2 (- 53)"
      by (simp add: ulp_def)
    then show "\<bar>- (3 / 4) - (9007199254740991 / 36028797018963968 + - 1)\<bar>
        < ulp (9007199254740991 / 36028797018963968 + - 1) / 2"
      by (simp add: p2_neg_numeral)
  qed
  then have "fl64 (9007199254740991 / 36028797018963968 + - 1) = Fin (- (3 / 4))"
    by (simp add: fl64_def max_double_def)
  then show ?thesis
    by (simp add: sub64_def)
qed

lemma seven_quarters_distance: "sub64 (Fin (7 / 4)) (Fin 1) = Fin (3 / 4)"
proof -
  have "fl64 (3 / 4) = Fin (3 / 4)"
    by (rule fl64_representable [where n = 3 and e = "- 2"])
      (simp_all add: p2_neg_numeral max_double_def)
  then show ?thesis
    by (simp add: sub64_def)
qed

text \<open>
  Claim C1, as stated, fails. The distances 0, \<open>1/4 - 2^-55\<close> and \<open>7/4\<close> are doubles in
  non-decreasing order and the query 1 lies between the first and the last. The entry
  \<open>7/4\<close> is nearer to 1 than the entry \<open>1/4 - 2^-55\<close>, but the subtraction rounds the
  difference \<open>3/4 + 2^-55\<close> to \<open>3/4\<close>: the two computed distances are equal and the locator
  returns the index 1.
\<close>

theorem kmToIndex_not_nearest:
  "kmToIndex [Fin 0, Fin (9007199254740991 / 36028797018963968), Fin (7 / 4)] (Fin 1) = Some 1 \<and>
   \<bar>7 / 4 - 1\<bar> < \<bar>9007199254740991 / 36028797018963968 - (1 :: real)\<bar> \<and>
   is_double (9007199254740991 / 36028797018963968)"
  using near_quarter_double
  by (simp add: kmToIndex_def lower_bound_loop.simps sar1_def toInt32_def pick_nearest_def
      num_at_def near_quarter_distance seven_quarters_distance)

text \<open>
  Claim C1, amended: on a non-decreasing array of finite distances (of at most \<open>2^30\<close>
  entries, so that \<^verbatim>\<open>lo + hi\<close> stays a signed 32-bit integer) and for a query not above
  the last distance, the locator returns one of the two candidates \<open>i2\<close>, the first index
  whose distance is not below the query, and \<open>i2 - 1\<close> (\<open>i2\<close> itself when \<open>i2 = 0\<close>): the
  one whose distance from the query as the script computes it, the difference rounded to
  a double, is smaller, and the lower one when the two computed distances are equal. The
  computed distance of the returned index is least among all indices. The lower
  candidate is returned whenever it is at least as near as the upper one in exact
  arithmetic, and when the upper candidate is returned it is nearest in exact arithmetic
  among all indices.
\<close>

theorem kmToIndex_nearest_computed:
  assumes "sorted xs" "xs \<noteq> []" "int (length xs) \<le> 2 ^ 30" "x \<le> last xs"
  shows "\<exists>idx i2. kmToIndex (map Fin xs) (Fin x) = Some (int idx) \<and> idx < length xs \<and>
           (\<forall>j < length xs. js_le (Math_abs (sub64 (Fin (xs ! idx)) (Fin x)))
                                   (Math_abs (sub64 (Fin (xs ! j)) (Fin x)))) \<and>
           i2 < length xs \<and> x \<le> xs ! i2 \<and> (\<forall>k < i2. xs ! k < x) \<and>
           idx = (if js_le (Math_abs (sub64 (Fin (xs ! (i2 - 1))) (Fin x)))
                           (Math_abs (sub64 (Fin (xs ! i2)) (Fin x)))
                  then i2 - 1 else i2) \<and>
           (\<bar>xs ! (i2 - 1) - x\<bar> \<le> \<bar>xs ! i2 - x\<bar> \<longrightarrow> idx = i2 - 1) \<and>
           (idx \<noteq> i2 - 1 \<longrightarrow> (\<forall>j < length xs. \<bar>xs ! idx - x\<bar> \<le> \<bar>xs ! j - x\<bar>))"
proof -
  have n: "0 < length xs" using assms(2) by simp
  have "\<exists>r. lower_bound_loop (map Fin xs) (Fin x) 0 (int (length xs) - 1) = Some r \<and> 0 \<le> r \<and>
          r \<le> int (length xs) - 1 \<and> (\<forall>k < nat r. xs ! k < x) \<and> x \<le> xs ! nat r"
  proof (rule lower_bound_loop_sorted [OF assms(1,3)])
    show "(0::int) \<le> 0" by simp
    show "0 \<le> int (length xs) - 1" using n by linarith
    show "int (length xs) - 1 < int (length xs)" by simp
    show "\<forall>k < nat 0. xs ! k < x" by simp
    have "nat (int (length xs) - 1) = length xs - 1" by simp
    then show "x \<le> xs ! nat (int (length xs) - 1)"
      using assms(2,4) by (simp add: last_conv_nth)
  qed
  then obtain r where r: "lower_bound_loop (map Fin xs) (Fin x) 0 (int (length xs) - 1) = Some r"
    "0 \<le> r" "r < int (length xs)" "\<forall>k < nat r. xs ! k < x" "x \<le> xs ! nat r"
    by auto
  define i2 where "i2 = nat r"
  define idx where "idx = (if js_le (Math_abs (sub64 (Fin (xs ! (i2 - 1))) (Fin x)))
      (Math_abs (sub64 (Fin (xs ! i2)) (Fin x))) then i2 - 1 else i2)"
  have i2: "i2 < length xs" "int i2 = r"
    using r(2,3) by (simp_all add: i2_def)
  have lb: "x \<le> xs ! i2" "\<forall>k < i2. xs ! k < x"
    using r(4,5) by (simp_all add: i2_def)
  have res: "kmToIndex (map Fin xs) (Fin x) = Some (int idx)"
    using r(1) pick_nearest_Fin [OF i2(1), of x] i2(2)
    by (simp add: kmToIndex_def idx_def)
  have lt: "idx < length xs"
    using i2(1) by (auto simp add: idx_def)
  have near: "\<forall>j < length xs. js_le (Math_abs (sub64 (Fin (xs ! idx)) (Fin x)))
      (Math_abs (sub64 (Fin (xs ! j)) (Fin x)))"
    using computed_nearest_of_lower_bound [OF assms(1) i2(1) lb idx_def] by blast
  have lower: "\<bar>xs ! (i2 - 1) - x\<bar> \<le> \<bar>xs ! i2 - x\<bar> \<longrightarrow> idx = i2 - 1"
    using computed_distance_mono [of "xs ! (i2 - 1)" x "xs ! i2"] by (simp add: idx_def)
  have upper: "idx \<noteq> i2 - 1 \<longrightarrow> (\<forall>j < length xs. \<bar>xs ! idx - x\<bar> \<le> \<bar>xs ! j - x\<bar>)"
  proof (intro impI allI)
    fix j
    assume ne: "idx \<noteq> i2 - 1" and j: "j < length xs"
    then have idx: "idx = i2" by (simp add: idx_def split: if_splits)
    from ne lower have far: "\<bar>xs ! i2 - x\<bar> < \<bar>xs ! (i2 - 1) - x\<bar>" by auto
    note c = candidates_nearest [OF assms(1) i2(1) lb j]
    show "\<bar>xs ! idx - x\<bar> \<le> \<bar>xs ! j - x\<bar>"
    proof (cases "j < i2")
      case True
      from c(1) [OF this] far show ?thesis unfolding idx by linarith
    next
      case False
      then have "i2 \<le> j" by simp
      from c(2) [OF this] show ?thesis unfolding idx .
    qed
  qed
  from res lt near i2(1) lb idx_def lower upper show ?thesis
    by blast
qed

lemma kmToIndex_sample: "kmToIndex [Fin 0, Fin 1, Fin 3] (Fin 2) = Some 1"
  by (simp add: run_locator)

text \<open>
  Claim C1, amended, at the distances 0, 1, 3 and the query 2, which is as near to 1 as
  to 3: the locator returns the lower index 1.
\<close>

theorem kmToIndex_nearest_computed_witness:
  "sorted [0, 1, 3 :: real] \<and> [0, 1, 3 :: real] \<noteq> [] \<and>
   int (length [0, 1, 3 :: real]) \<le> 2 ^ 30 \<and> (2 :: real) \<le> last [0, 1, 3] \<and>
   kmToIndex (map Fin [0, 1, 3]) (Fin 2) = Some 1"
  using kmToIndex_nearest_computed [of "[0, 1, 3]" 2] kmToIndex_sample
  by simp

end
